theory Spec2Isabelle
  imports Main
begin

section \<open>Bracket pairing for an editor: \<^verbatim>\<open>src/autoCloseBrackets.js\<close>\<close>

text \<open>
  The source registers two listeners on a host editor: \<^verbatim>\<open>handleKeypress\<close> for typed
  characters and \<^verbatim>\<open>handleKeydown\<close> for the Enter and Backspace keys. Each listener reads
  the cursor, the current line and the selections from the host and then asks the host to
  replace a range of text, to move the cursor, or to do nothing.

  A JavaScript string is modelled as \<^typ>\<open>string\<close>; the value of \<^verbatim>\<open>charAt\<close> is a string of
  length zero or one. Every delimiter of the table is an ASCII character, so the eight-bit
  characters of HOL cover all of them. Positions hold JavaScript numbers that are always
  integers here; they are modelled as \<^typ>\<open>int\<close>, since the source computes
  \<^verbatim>\<open>pos.ch - 1\<close> at column 0.
\<close>

subsection \<open>Data\<close>

datatype pos = Pos (line: int) (ch: int)

datatype error = TypeError | RangeError

text \<open>The commands that change the host: the calls of \<^verbatim>\<open>cm.replaceRange\<close> (whose third
  argument may be absent) and of \<^verbatim>\<open>cm.setCursor\<close>, with the arguments as passed.\<close>

datatype call = ReplaceRange string pos "pos option" | SetCursor pos

text \<open>
  The state that one listener invocation works on: the document as its list of lines, the
  selection ranges as (anchor, head) pairs with the index of the primary one, the
  \<^verbatim>\<open>indentUnit\<close> option, the \<^verbatim>\<open>defaultPrevented\<close> flag of the event, and two traces that
  make the behaviour observable: the host commands issued, in order, and the arguments
  with which \<^verbatim>\<open>getCloseBracket\<close> was called.
\<close>

record cm =
  doc :: "string list"
  sels :: "(pos \<times> pos) list"
  primIndex :: nat
  indentUnit :: int
  defaultPrevented :: bool
  calls :: "call list"
  lookups :: "string list"

subsection \<open>The delimiter table and its three functions\<close>

text \<open>The object literal \<^verbatim>\<open>brackets\<close>, in key order. The last three keys are the single
  quote, the double quote and the backtick.\<close>

definition brackets :: "(string \<times> string) list" where
  "brackets =
     [(''('', '')''), (''['', '']''), (''{'', ''}''),
      ([CHR 0x27], [CHR 0x27]), ([CHR 0x22], [CHR 0x22]), ([CHR 0x60], [CHR 0x60])]"

definition isOpenBracket :: "string \<Rightarrow> bool" where
  "isOpenBracket char = (char \<in> set (map fst brackets))"

definition isCloseBracket :: "string \<Rightarrow> bool" where
  "isCloseBracket char = (char \<in> set (map snd brackets))"

text \<open>\<^verbatim>\<open>brackets[open]\<close>: \<^term>\<open>None\<close> stands for \<^verbatim>\<open>undefined\<close>.\<close>

definition getCloseBracket :: "string \<Rightarrow> string option" where
  "getCloseBracket open = map_of brackets open"

text \<open>A call of \<^verbatim>\<open>getCloseBracket\<close> inside a listener: the value, and the state with the
  argument added to the trace of lookups.\<close>

definition callGetCloseBracket :: "string \<Rightarrow> cm \<Rightarrow> string option \<times> cm" where
  "callGetCloseBracket open s = (getCloseBracket open, s\<lparr>lookups := lookups s @ [open]\<rparr>)"

text \<open>String concatenation with a value that may be \<^verbatim>\<open>undefined\<close>.\<close>

definition jsString :: "string option \<Rightarrow> string" where
  "jsString v = (case v of None \<Rightarrow> ''undefined'' | Some x \<Rightarrow> x)"

text \<open>\<^verbatim>\<open>String.prototype.charAt\<close>: the empty string outside the string.\<close>

definition charAt :: "string \<Rightarrow> int \<Rightarrow> string" where
  "charAt str i = (if 0 \<le> i \<and> i < int (length str) then [str ! nat i] else [])"

text \<open>The characters that \<^verbatim>\<open>\s\<close> matches among the eight-bit ones: tab, line feed,
  vertical tab, form feed, carriage return, space and the no-break space.\<close>

definition isSpace :: "char \<Rightarrow> bool" where
  "isSpace c = (c \<in> set [CHR 0x09, CHR 0x0A, CHR 0x0B, CHR 0x0C, CHR 0x0D, CHR 0x20, CHR 0xA0])"

text \<open>\<^verbatim>\<open>line.match(/^\s*/)[0]\<close>: the longest prefix of white space.\<close>

definition leadingSpace :: "string \<Rightarrow> string" where
  "leadingSpace ln = takeWhile isSpace ln"

subsection \<open>The host editor\<close>

text \<open>
  The listeners call methods of the editor object \<^verbatim>\<open>cm\<close> and of the event, which the
  source takes from \<^verbatim>\<open>../../lib/codemirror\<close>; that library is not among the source
  files. Each method is modelled from section 6 of the specification, which lists what
  the host provides, and follows the behaviour of the CodeMirror document where the
  specification leaves a detail open: the clipping of positions, the order of the two
  ends of a range, and where a replacement leaves the selections. A line break inside
  a string is a line feed.
\<close>

text \<open>Modelled from the spec: positions are (line, column) pairs. The comparison
  \<^verbatim>\<open>cmp\<close> of two positions is missing from the sources: negative when the first one
  comes first, by line and then by column.\<close>

definition cmp :: "pos \<Rightarrow> pos \<Rightarrow> int" where
  "cmp a b = (if line a - line b \<noteq> 0 then line a - line b else ch a - ch b)"

text \<open>Modelled from the spec: "positions are always valid document coordinates by
  construction of the host". \<^verbatim>\<open>clipToLen\<close> is missing from the sources; it moves a
  column into a line of the given length.\<close>

definition clipToLen :: "pos \<Rightarrow> int \<Rightarrow> pos" where
  "clipToLen p linelen =
     (if ch p > linelen then Pos (line p) linelen
      else if ch p < 0 then Pos (line p) 0
      else p)"

text \<open>Modelled from the spec: "positions are always valid document coordinates by
  construction of the host". \<^verbatim>\<open>clipPos\<close> is missing from the sources; it moves a
  position into the document: before the first line to its start, after the last line
  to its end.\<close>

definition clipPos :: "string list \<Rightarrow> pos \<Rightarrow> pos" where
  "clipPos d p =
     (if line p < 0 then Pos 0 0
      else let last = int (length d) - 1
           in if line p > last then Pos last (int (length (d ! nat last)))
              else clipToLen p (int (length (d ! nat (line p)))))"

text \<open>Modelled from the spec: "Query current cursor position(s)". \<^verbatim>\<open>getCursor\<close> is
  missing from the sources; without an argument it is the head of the primary range.\<close>

definition getCursor :: "cm \<Rightarrow> pos" where
  "getCursor s = snd (sels s ! primIndex s)"

text \<open>Modelled from the spec: "Query ... active selection range(s)".
  \<^verbatim>\<open>listSelections\<close> is missing from the sources; it gives the ranges as they are at
  the time of the call.\<close>

definition listSelections :: "cm \<Rightarrow> (pos \<times> pos) list" where
  "listSelections s = sels s"

text \<open>Modelled from the spec: "whether a non-empty selection is active".
  \<^verbatim>\<open>somethingSelected\<close> is missing from the sources; it holds when some range is not
  empty.\<close>

definition somethingSelected :: "cm \<Rightarrow> bool" where
  "somethingSelected s = list_ex (\<lambda>r. fst r \<noteq> snd r) (sels s)"

text \<open>Modelled from the spec: "Query the text of an arbitrary line by index".
  \<^verbatim>\<open>getLine\<close> is missing from the sources; outside the document it gives
  \<^verbatim>\<open>undefined\<close>.\<close>

definition getLine :: "cm \<Rightarrow> int \<Rightarrow> string option" where
  "getLine s n = (if 0 \<le> n \<and> n < int (length (doc s)) then Some (doc s ! nat n) else None)"

text \<open>Modelled from the spec: "Query a configured indent-width setting".
  \<^verbatim>\<open>getOption\<close> is missing from the sources; the listeners read the option
  \<^verbatim>\<open>indentUnit\<close> only.\<close>

definition getOption_indentUnit :: "cm \<Rightarrow> int" where
  "getOption_indentUnit s = indentUnit s"

text \<open>Modelled from the spec: "Suppress/cancel the default handling of the current
  keystroke". \<^verbatim>\<open>event.preventDefault\<close> is missing from the sources.\<close>

definition preventDefault :: "cm \<Rightarrow> cm" where
  "preventDefault s = s\<lparr>defaultPrevented := True\<rparr>"

text \<open>Modelled from the spec: "Replace an arbitrary text range with a given string";
  the document is a sequence of lines. \<^verbatim>\<open>splitLines\<close> is missing from the sources; it
  cuts a string at its line feeds.\<close>

fun splitLines :: "string \<Rightarrow> string list" where
  "splitLines [] = [[]]"
| "splitLines (c # cs) =
     (if c = CHR 0x0A then [] # splitLines cs
      else (c # hd (splitLines cs)) # tl (splitLines cs))"

text \<open>Modelled from the spec: the text of several lines. The join of the lines of a
  range, which \<^verbatim>\<open>getRange\<close> returns, is missing from the sources; the lines are put
  together with line feeds.\<close>

fun joinLines :: "string list \<Rightarrow> string" where
  "joinLines [] = []"
| "joinLines [l] = l"
| "joinLines (l # ls) = l @ CHR 0x0A # joinLines ls"

text \<open>Modelled from the spec: the selected text that the wrapping reads.
  \<^verbatim>\<open>getBetween\<close> is missing from the sources. It walks the lines from the line of
  its first argument to the line of its second, cuts the last one at the second column
  and then the first one at the first column; it does not order its two arguments.\<close>

definition getBetween :: "string list \<Rightarrow> pos \<Rightarrow> pos \<Rightarrow> string list" where
  "getBetween d start end =
     map (\<lambda>n. let text = d ! n;
                  text1 = (if int n = line end then take (nat (ch end)) text else text)
              in if int n = line start then drop (nat (ch start)) text1 else text1)
         [nat (line start) ..< nat (line end + 1)]"

text \<open>Modelled from the spec: the selected text that the wrapping reads.
  \<^verbatim>\<open>getRange\<close> is missing from the sources; it clips its two arguments and joins the
  lines between them.\<close>

definition getRange :: "cm \<Rightarrow> pos \<Rightarrow> pos \<Rightarrow> string" where
  "getRange s from to = joinLines (getBetween (doc s) (clipPos (doc s) from) (clipPos (doc s) to))"

text \<open>Modelled from the spec: "Replace an arbitrary text range with a given string".
  \<^verbatim>\<open>changeEnd\<close> is missing from the sources; it is the position where the new text
  ends.\<close>

definition changeEnd :: "pos \<Rightarrow> string list \<Rightarrow> pos" where
  "changeEnd from text =
     Pos (line from + int (length text) - 1)
         (int (length (last text)) + (if length text = 1 then ch from else 0))"

text \<open>Modelled from the spec: "Replace an arbitrary text range with a given string".
  \<^verbatim>\<open>adjustForChange\<close> is missing from the sources; it says where a selection end is
  after a change: an end before the change stays, an end inside the replaced range goes
  to the end of the new text, a later one keeps its distance to the end of the
  change.\<close>

definition adjustForChange :: "pos \<Rightarrow> string list \<Rightarrow> pos \<Rightarrow> pos \<Rightarrow> pos" where
  "adjustForChange from text to p =
     (if cmp p from < 0 then p
      else if cmp p to \<le> 0 then changeEnd from text
      else Pos (line p + int (length text) - (line to - line from) - 1)
               (if line p = line to then ch p + (ch (changeEnd from text) - ch to) else ch p))"

text \<open>Modelled from the spec: "Replace an arbitrary text range with a given string".
  The update of the lines is missing from the sources: the first new line follows the
  text before the range, the text after the range follows the last new line.\<close>

definition spliceLines :: "string \<Rightarrow> string list \<Rightarrow> string \<Rightarrow> string list" where
  "spliceLines pre text suf =
     (let first = (pre @ hd text) # tl text
      in butlast first @ [last first @ suf])"

text \<open>Modelled from the spec: "Replace an arbitrary text range with a given string".
  \<^verbatim>\<open>updateDoc\<close> is missing from the sources; the lines before the first end and
  after the second end stay.\<close>

definition updateDoc :: "string list \<Rightarrow> pos \<Rightarrow> pos \<Rightarrow> string list \<Rightarrow> string list" where
  "updateDoc d from to text =
     take (nat (line from)) d
     @ spliceLines (take (nat (ch from)) (d ! nat (line from))) text
                   (drop (nat (ch to)) (d ! nat (line to)))
     @ drop (Suc (nat (line to))) d"

text \<open>Modelled from the spec: "Replace an arbitrary text range with a given string".
  \<^verbatim>\<open>replaceRange\<close> is missing from the sources. It clips both ends, takes the first
  end for an absent second one, orders the two ends, replaces the text between them by
  the lines of the string and moves the ends of every selection range; ranges that
  come to overlap are not merged here.\<close>

definition replaceRange :: "string \<Rightarrow> pos \<Rightarrow> pos option \<Rightarrow> cm \<Rightarrow> cm" where
  "replaceRange code from to s =
     (let d = doc s;
          f0 = clipPos d from;
          t0 = (case to of None \<Rightarrow> f0 | Some t \<Rightarrow> clipPos d t);
          f = (if cmp t0 f0 < 0 then t0 else f0);
          t = (if cmp t0 f0 < 0 then f0 else t0);
          text = splitLines code
      in s\<lparr>doc := updateDoc d f t text,
            sels := map (\<lambda>r. (adjustForChange f text t (fst r), adjustForChange f text t (snd r)))
                        (sels s),
            calls := calls s @ [ReplaceRange code from to]\<rparr>)"

text \<open>Modelled from the spec: "Set the cursor to an arbitrary position".
  \<^verbatim>\<open>setCursor\<close> is missing from the sources; the selection becomes one empty range at
  the clipped position.\<close>

definition setCursor :: "pos \<Rightarrow> cm \<Rightarrow> cm" where
  "setCursor p s =
     s\<lparr>sels := [(clipPos (doc s) p, clipPos (doc s) p)],
       primIndex := 0,
       calls := calls s @ [SetCursor p]\<rparr>"

subsection \<open>The keypress listener\<close>

text \<open>
  The three closures of \<^verbatim>\<open>handleKeypress\<close> take the variables they capture
  (\<^verbatim>\<open>char\<close>, \<^verbatim>\<open>close\<close>, \<^verbatim>\<open>pos\<close>, \<^verbatim>\<open>nextChar\<close>) as arguments. The \<^verbatim>\<open>forEach\<close> over
  the selections is a fold over the list that \<^verbatim>\<open>listSelections\<close> returned before the
  first replacement; \<^verbatim>\<open>getRange\<close> reads the document as the earlier replacements left
  it.
\<close>

definition wrapSelection :: "string \<Rightarrow> string option \<Rightarrow> pos \<times> pos \<Rightarrow> cm \<Rightarrow> cm" where
  "wrapSelection char close selection s =
     (let text = getRange s (fst selection) (snd selection)
      in replaceRange (char @ text @ jsString close) (fst selection) (Some (snd selection)) s)"

definition autocomplete :: "string \<Rightarrow> string option \<Rightarrow> pos \<Rightarrow> cm \<Rightarrow> cm" where
  "autocomplete char close p s =
     (let s1 = preventDefault s
      in if somethingSelected s1
         then fold (wrapSelection char close) (listSelections s1) s1
         else setCursor (Pos (line p) (ch p + 1))
                (replaceRange (char @ jsString close) p None s1))"

definition handleRightBracket :: "pos \<Rightarrow> cm \<Rightarrow> cm" where
  "handleRightBracket p s = setCursor (Pos (line p) (ch p + 1)) (preventDefault s)"

definition handlePunctuation :: "string \<Rightarrow> string \<Rightarrow> string option \<Rightarrow> pos \<Rightarrow> cm \<Rightarrow> cm" where
  "handlePunctuation char nextChar close p s =
     (if char = nextChar then handleRightBracket p s else autocomplete char close p s)"

text \<open>\<^verbatim>\<open>handleKeypress(cm, event)\<close>, with the character of \<^verbatim>\<open>event.charCode\<close> as
  argument. Reading \<^verbatim>\<open>charAt\<close> of an \<^verbatim>\<open>undefined\<close> line throws a
  \<^verbatim>\<open>TypeError\<close>.\<close>

definition handleKeypress :: "cm \<Rightarrow> char \<Rightarrow> error + cm" where
  "handleKeypress s c =
     (let char = [c];
          isLeftBracket = isOpenBracket char;
          isRightBracket = isCloseBracket char
      in if \<not> isLeftBracket \<and> \<not> isRightBracket then Inr s
         else
           let p = getCursor s
           in case getLine s (line p) of
                None \<Rightarrow> Inl TypeError
              | Some ln \<Rightarrow>
                  let nextChar = charAt ln (ch p);
                      (close, s1) = callGetCloseBracket char s
                  in if isLeftBracket = isRightBracket
                     then Inr (handlePunctuation char nextChar close p s1)
                     else if isLeftBracket then Inr (autocomplete char close p s1)
                     else if isRightBracket
                       then (if char = nextChar then Inr (handleRightBracket p s1) else Inr s1)
                     else Inr s1)"

subsection \<open>The keydown listener\<close>

text \<open>\<^verbatim>\<open>" ".repeat(tabSize)\<close> throws a \<^verbatim>\<open>RangeError\<close> for a negative count.\<close>

definition handleEnter :: "cm \<Rightarrow> error + cm" where
  "handleEnter s =
     (let p = getCursor s
      in case getLine s (line p) of
           None \<Rightarrow> Inl TypeError
         | Some ln \<Rightarrow>
             let prevChar = charAt ln (ch p - 1);
                 nextChar = charAt ln (ch p)
             in if isOpenBracket prevChar \<and> isCloseBracket nextChar
                then
                  let s1 = preventDefault s;
                      indentation = leadingSpace ln;
                      tabSize = getOption_indentUnit s1
                  in if tabSize < 0 then Inl RangeError
                     else
                       let extraIndent = replicate (nat tabSize) CHR 0x20;
                           newLine = CHR 0x0A # indentation @ extraIndent
                                     @ CHR 0x0A # indentation;
                           s2 = replaceRange newLine p None s1
                       in Inr (setCursor (Pos (line p + 1) (int (length indentation) + tabSize)) s2)
                else Inr s)"

text \<open>In \<^verbatim>\<open>handleBackspace\<close> the operator \<^verbatim>\<open>&&\<close> evaluates \<^verbatim>\<open>getCloseBracket(prevChar)\<close>
  only when \<^verbatim>\<open>isOpenBracket(prevChar)\<close> holds.\<close>

definition handleBackspace :: "cm \<Rightarrow> error + cm" where
  "handleBackspace s =
     (if somethingSelected s then Inr s
      else
        let p = getCursor s
        in case getLine s (line p) of
             None \<Rightarrow> Inl TypeError
           | Some ln \<Rightarrow>
               let prevChar = charAt ln (ch p - 1);
                   nextChar = charAt ln (ch p)
               in if isOpenBracket prevChar
                  then
                    let (close, s1) = callGetCloseBracket prevChar s
                    in if Some nextChar = close
                       then Inr (replaceRange [] (Pos (line p) (ch p - 1))
                                   (Some (Pos (line p) (ch p + 1))) (preventDefault s1))
                       else Inr s1
                  else Inr s)"

definition handleKeydown :: "cm \<Rightarrow> string \<Rightarrow> error + cm" where
  "handleKeydown s key =
     (if key = ''Enter'' then handleEnter s
      else if key = ''Backspace'' then handleBackspace s
      else Inr s)"

subsection \<open>Well-formed states and observations\<close>

text \<open>A position is a coordinate of the document when its line exists and its column
  lies within that line or at its end.\<close>

definition validPos :: "string list \<Rightarrow> pos \<Rightarrow> bool" where
  "validPos d p =
     (0 \<le> line p \<and> line p < int (length d) \<and> 0 \<le> ch p
      \<and> ch p \<le> int (length (d ! nat (line p))))"

text \<open>The line under the cursor and the characters on both sides of it, as the
  listeners read them.\<close>

definition cursorLine :: "cm \<Rightarrow> string" where
  "cursorLine s = doc s ! nat (line (getCursor s))"

definition prevCharOf :: "cm \<Rightarrow> string" where
  "prevCharOf s = charAt (cursorLine s) (ch (getCursor s) - 1)"

definition nextCharOf :: "cm \<Rightarrow> string" where
  "nextCharOf s = charAt (cursorLine s) (ch (getCursor s))"

text \<open>What the host can observe of a listener run: the document, the selections, the
  flag of the event and the commands issued.\<close>

definition sameEditor :: "cm \<Rightarrow> cm \<Rightarrow> bool" where
  "sameEditor s t =
     (doc t = doc s \<and> sels t = sels s \<and> primIndex t = primIndex s
      \<and> indentUnit t = indentUnit s \<and> defaultPrevented t = defaultPrevented s
      \<and> calls t = calls s)"

text \<open>The invariant of the host that the listeners rely on: there is a primary range and
  its head, the cursor, is a coordinate of the document.\<close>

definition wellFormed :: "cm \<Rightarrow> bool" where
  "wellFormed s = (primIndex s < length (sels s) \<and> validPos (doc s) (getCursor s))"

text \<open>An editor holding the given lines and selection ranges, the first range primary,
  an indent unit of two columns, before any listener has run.\<close>

definition editor :: "string list \<Rightarrow> (pos \<times> pos) list \<Rightarrow> cm" where
  "editor d ss =
     \<lparr>doc = d, sels = ss, primIndex = 0, indentUnit = 2, defaultPrevented = False,
      calls = [], lookups = []\<rparr>"

text \<open>The edit commands among the commands issued are the calls of
  \<^verbatim>\<open>replaceRange\<close>; \<^verbatim>\<open>setCursor\<close> leaves the text alone.\<close>

fun isEdit :: "call \<Rightarrow> bool" where
  "isEdit (ReplaceRange code from to) = True"
| "isEdit (SetCursor p) = False"

definition edits :: "cm \<Rightarrow> nat" where
  "edits s = length (filter isEdit (calls s))"

text \<open>The lines of a document hold no line break.\<close>

definition lfFree :: "string list \<Rightarrow> bool" where
  "lfFree d = list_all (\<lambda>l. CHR 0x0A \<notin> set l) d"

text \<open>A selection range that is not empty and runs forward: both ends are coordinates of
  the document and the anchor comes before the head.\<close>

definition forwardRange :: "string list \<Rightarrow> pos \<times> pos \<Rightarrow> bool" where
  "forwardRange d r = (validPos d (fst r) \<and> validPos d (snd r) \<and> cmp (fst r) (snd r) < 0)"

text \<open>The lines that a range touches, from the line of its anchor to the line of its head,
  and the indices of these lines.\<close>

definition spanLines :: "string list \<Rightarrow> pos \<times> pos \<Rightarrow> string list" where
  "spanLines d r =
     take (Suc (nat (line (snd r))) - nat (line (fst r))) (drop (nat (line (fst r))) d)"

definition inSpan :: "pos \<times> pos \<Rightarrow> nat \<Rightarrow> bool" where
  "inSpan r n = (nat (line (fst r)) \<le> n \<and> n \<le> nat (line (snd r)))"

text \<open>Two ranges that touch no common line.\<close>

definition spanDisjoint :: "pos \<times> pos \<Rightarrow> pos \<times> pos \<Rightarrow> bool" where
  "spanDisjoint r r' = (line (snd r) < line (fst r') \<or> line (snd r') < line (fst r))"

text \<open>The lines that \<^verbatim>\<open>replaceRange(char + text + close, anchor, head)\<close> puts in the
  place of the lines of a range: the text before the anchor, the lines of the new string,
  the text after the head.\<close>

definition wrapLines :: "char \<Rightarrow> char \<Rightarrow> string list \<Rightarrow> pos \<times> pos \<Rightarrow> string list" where
  "wrapLines c x d r =
     spliceLines (take (nat (ch (fst r))) (d ! nat (line (fst r))))
       (splitLines (c # joinLines (getBetween d (fst r) (snd r)) @ [x]))
       (drop (nat (ch (snd r))) (d ! nat (line (snd r))))"

text \<open>An editor with two selections: \<open>b\<close>, line break, \<open>c\<close> across the first two lines,
  and \<open>ef\<close> on the third.\<close>

definition wrapExample :: cm where
  "wrapExample = editor [''ab'', ''cd'', ''ef''] [(Pos 0 1, Pos 1 1), (Pos 2 0, Pos 2 2)]"

section \<open>Properties\<close>

lemma isOpenBracket_Nil [simp]: "\<not> isOpenBracket []"
  by (simp add: isOpenBracket_def brackets_def)

lemma isCloseBracket_Nil [simp]: "\<not> isCloseBracket []"
  by (simp add: isCloseBracket_def brackets_def)

lemma charAt_neg [simp]: "i < 0 \<Longrightarrow> charAt str i = []"
  by (simp add: charAt_def)

subsection \<open>Helper facts\<close>

lemma getLine_cursor:
  "wellFormed s \<Longrightarrow> getLine s (line (getCursor s)) = Some (cursorLine s)"
  by (simp add: wellFormed_def validPos_def getLine_def cursorLine_def)

lemma isOpenBracket_char:
  "isOpenBracket [c] = (c \<in> {CHR ''('', CHR ''['', CHR ''{'', CHR 0x27, CHR 0x22, CHR 0x60})"
  by (auto simp add: isOpenBracket_def brackets_def)

lemma isCloseBracket_char:
  "isCloseBracket [c] = (c \<in> {CHR '')'', CHR '']'', CHR ''}'', CHR 0x27, CHR 0x22, CHR 0x60})"
  by (auto simp add: isCloseBracket_def brackets_def)

lemma charAt_single:
  "charAt str i = [c] \<Longrightarrow> 0 \<le> i \<and> i < int (length str) \<and> str ! nat i = c"
  by (simp add: charAt_def split: if_splits)

lemma clipPos_valid: "validPos d p \<Longrightarrow> clipPos d p = p"
  by (simp add: validPos_def clipPos_def clipToLen_def Let_def)

lemma splitLines_plain: "CHR 0x0A \<notin> set str \<Longrightarrow> splitLines str = [str]"
  by (induction str) auto

lemma splitLines_append:
  "CHR 0x0A \<notin> set a \<Longrightarrow> splitLines (a @ CHR 0x0A # b) = a # splitLines b"
  by (induction a) auto

lemma updateDoc_one_line:
  assumes "0 \<le> l" and "nat l < length d"
  shows "updateDoc d (Pos l i) (Pos l j) [txt]
           = d[nat l := take (nat i) (d ! nat l) @ txt @ drop (nat j) (d ! nat l)]"
  using assms by (simp add: updateDoc_def spliceLines_def upd_conv_take_nth_drop)

lemma updateDoc_three_lines:
  "updateDoc d (Pos l i) (Pos l i) [[], m, e]
     = take (nat l) d @ [take (nat i) (d ! nat l), m, e @ drop (nat i) (d ! nat l)]
       @ drop (Suc (nat l)) d"
  by (simp add: updateDoc_def spliceLines_def)

lemma getCloseBracket_char:
  "isOpenBracket [c] \<Longrightarrow>
     \<exists>x. getCloseBracket [c] = Some [x] \<and> x \<noteq> CHR 0x0A \<and> c \<noteq> CHR 0x0A
        \<and> isCloseBracket [x]"
  by (auto simp add: isOpenBracket_def isCloseBracket_def getCloseBracket_def brackets_def)


lemmas eval_defs = editor_def wellFormed_def validPos_def getCursor_def cursorLine_def
  nextCharOf_def prevCharOf_def charAt_def isOpenBracket_def isCloseBracket_def
  getCloseBracket_def brackets_def somethingSelected_def


subsection \<open>Typing over a closer (C5)\<close>

text \<open>
  C5. For every character \<open>c\<close> that is a closer, a bracket that only closes or a quote,
  typing \<open>c\<close> when the character right after the cursor is \<open>c\<close> suppresses the default
  insertion and issues a single \<^verbatim>\<open>setCursor\<close> one column to the right on the same line:
  the document is unchanged, nothing is inserted or deleted, and the selection becomes
  the cursor at that column.
\<close>

theorem type_through_closer:
  assumes "wellFormed s" and "isCloseBracket [c]" and "nextCharOf s = [c]"
  shows "handleKeypress s c =
           Inr (s\<lparr>sels := [(Pos (line (getCursor s)) (ch (getCursor s) + 1),
                            Pos (line (getCursor s)) (ch (getCursor s) + 1))],
                  primIndex := 0,
                  defaultPrevented := True,
                  calls := calls s @ [SetCursor (Pos (line (getCursor s)) (ch (getCursor s) + 1))],
                  lookups := lookups s @ [[c]]\<rparr>)"
proof -
  let ?p = "getCursor s"
  let ?q = "Pos (line ?p) (ch ?p + 1)"
  from assms(3) have inside: "0 \<le> ch ?p \<and> ch ?p < int (length (cursorLine s))"
    using charAt_single by (fastforce simp add: nextCharOf_def)
  with assms(1) have "validPos (doc s) ?q"
    by (simp add: wellFormed_def validPos_def cursorLine_def)
  then have clip: "clipPos (doc s) ?q = ?q"
    by (rule clipPos_valid)
  have nxt: "charAt (cursorLine s) (ch ?p) = [c]"
    using assms(3) by (simp add: nextCharOf_def)
  show ?thesis
    using assms(2) clip nxt
    by (simp add: handleKeypress_def getLine_cursor [OF assms(1)] Let_def
        callGetCloseBracket_def handlePunctuation_def handleRightBracket_def
        setCursor_def preventDefault_def)
qed


theorem type_through_closer_witness:
  "wellFormed (editor [''f()''] [(Pos 0 2, Pos 0 2)])
   \<and> isCloseBracket '')''
   \<and> nextCharOf (editor [''f()''] [(Pos 0 2, Pos 0 2)]) = '')''
   \<and> handleKeypress (editor [''f()''] [(Pos 0 2, Pos 0 2)]) CHR '')''
       = Inr ((editor [''f()''] [(Pos 0 3, Pos 0 3)])
               \<lparr>defaultPrevented := True, calls := [SetCursor (Pos 0 3)],
                lookups := ['')'']\<rparr>)"
  using type_through_closer [of "editor [''f()''] [(Pos 0 2, Pos 0 2)]" "CHR '')''"]
  by (simp add: eval_defs)


subsection \<open>Characters that pass through (C9)\<close>

text \<open>
  C9. A typed character that is neither a key nor a value of the delimiter table leaves
  the state exactly as it was: the listener returns before it reads anything from the
  host. A closer that is not an opener, typed when the character after the cursor is a
  different one (or there is none), changes neither the document, the selections, the
  flag of the event nor the commands issued; only the closer lookup of line 75 is
  recorded in the trace.
\<close>

theorem keypress_passthrough:
  "(\<not> isOpenBracket [c] \<and> \<not> isCloseBracket [c] \<longrightarrow> handleKeypress s c = Inr s)
   \<and> (wellFormed s \<and> \<not> isOpenBracket [c] \<and> isCloseBracket [c] \<and> nextCharOf s \<noteq> [c]
        \<longrightarrow> handleKeypress s c = Inr (s\<lparr>lookups := lookups s @ [[c]]\<rparr>))"
  by (simp add: handleKeypress_def getLine_cursor Let_def callGetCloseBracket_def nextCharOf_def)


theorem keypress_passthrough_witness:
  "\<not> isOpenBracket ''a'' \<and> \<not> isCloseBracket ''a''
   \<and> handleKeypress (editor [''f()''] [(Pos 0 2, Pos 0 2)]) CHR ''a''
       = Inr (editor [''f()''] [(Pos 0 2, Pos 0 2)])
   \<and> wellFormed (editor [''f(x''] [(Pos 0 2, Pos 0 2)])
   \<and> \<not> isOpenBracket '')'' \<and> isCloseBracket '')''
   \<and> nextCharOf (editor [''f(x''] [(Pos 0 2, Pos 0 2)]) \<noteq> '')''
   \<and> handleKeypress (editor [''f(x''] [(Pos 0 2, Pos 0 2)]) CHR '')''
       = Inr ((editor [''f(x''] [(Pos 0 2, Pos 0 2)])\<lparr>lookups := ['')'']\<rparr>)"
  using keypress_passthrough [of "CHR ''a''" "editor [''f()''] [(Pos 0 2, Pos 0 2)]"]
    keypress_passthrough [of "CHR '')''" "editor [''f(x''] [(Pos 0 2, Pos 0 2)]"]
  by (simp add: eval_defs)


subsection \<open>Backspace at the start of a line (C10)\<close>

text \<open>
  C10. With the cursor at column 0 the character before the cursor is read as the empty
  string, which is not an opener, so \<^verbatim>\<open>handleBackspace\<close> returns the state unchanged:
  no pair is deleted across a line boundary and the default deletion applies.
\<close>

theorem backspace_at_column_zero:
  "wellFormed s \<Longrightarrow> ch (getCursor s) = 0 \<Longrightarrow> handleBackspace s = Inr s"
  by (simp add: handleBackspace_def getLine_cursor Let_def)


theorem backspace_at_column_zero_witness:
  "wellFormed (editor [''f('', '')''] [(Pos 1 0, Pos 1 0)])
   \<and> ch (getCursor (editor [''f('', '')''] [(Pos 1 0, Pos 1 0)])) = 0
   \<and> handleBackspace (editor [''f('', '')''] [(Pos 1 0, Pos 1 0)])
       = Inr (editor [''f('', '')''] [(Pos 1 0, Pos 1 0)])"
  using backspace_at_column_zero [of "editor [''f('', '')''] [(Pos 1 0, Pos 1 0)]"]
  by (simp add: eval_defs)

subsection \<open>Typing an opener without a selection (C1)\<close>

lemma validPos_line: "validPos d p \<Longrightarrow> nat (line p) < length d"
  by (auto simp add: validPos_def)

lemma replaceRange_insert:
  assumes "validPos (doc s) p" and "CHR 0x0A \<notin> set txt"
  shows "replaceRange txt p None s =
           s\<lparr>doc := (doc s)[nat (line p) :=
                      take (nat (ch p)) (doc s ! nat (line p)) @ txt
                      @ drop (nat (ch p)) (doc s ! nat (line p))],
             sels := map (\<lambda>r. (adjustForChange p [txt] p (fst r), adjustForChange p [txt] p (snd r)))
                        (sels s),
             calls := calls s @ [ReplaceRange txt p None]\<rparr>"
proof -
  obtain l i where p: "p = Pos l i" by (cases p)
  from assms(1) have l: "0 \<le> l" "nat l < length (doc s)"
    using validPos_line [OF assms(1)] by (simp_all add: p validPos_def)
  show ?thesis
    using assms l
    by (simp add: replaceRange_def clipPos_valid splitLines_plain cmp_def Let_def p
        updateDoc_one_line)
qed

text \<open>
  C1, as amended. For every opener \<open>c\<close> of the table with closer \<open>x\<close>, typed with no active
  selection and not as a quote right in front of the same quote, \<^verbatim>\<open>handleKeypress\<close>
  suppresses the default insertion, inserts exactly the two characters \<open>c x\<close> at the
  cursor in one \<^verbatim>\<open>replaceRange\<close>, and sets the cursor one column after the opener,
  between the two new characters.
\<close>

theorem keypress_inserts_pair:
  assumes "wellFormed s" and "isOpenBracket [c]" and "\<not> somethingSelected s"
    and "\<not> (isCloseBracket [c] \<and> nextCharOf s = [c])"
  shows "\<exists>x t. getCloseBracket [c] = Some [x]
           \<and> handleKeypress s c = Inr t
           \<and> doc t = (doc s)[nat (line (getCursor s)) :=
                        take (nat (ch (getCursor s))) (cursorLine s) @ [c, x]
                        @ drop (nat (ch (getCursor s))) (cursorLine s)]
           \<and> sels t = [(Pos (line (getCursor s)) (ch (getCursor s) + 1),
                        Pos (line (getCursor s)) (ch (getCursor s) + 1))]
           \<and> defaultPrevented t
           \<and> calls t = calls s @ [ReplaceRange [c, x] (getCursor s) None,
                                   SetCursor (Pos (line (getCursor s)) (ch (getCursor s) + 1))]"
proof -
  let ?p = "getCursor s"
  let ?q = "Pos (line ?p) (ch ?p + 1)"
  let ?ln = "cursorLine s"
  from getCloseBracket_char [OF assms(2)] obtain x where
    x: "getCloseBracket [c] = Some [x]" "x \<noteq> CHR 0x0A" "c \<noteq> CHR 0x0A"
    by blast
  let ?s1 = "preventDefault (s\<lparr>lookups := lookups s @ [[c]]\<rparr>)"
  from assms(1) have vp: "validPos (doc ?s1) ?p"
    by (simp add: wellFormed_def preventDefault_def)
  have nolf: "CHR 0x0A \<notin> set [c, x]"
    using x by auto
  let ?s2 = "replaceRange [c, x] ?p None ?s1"
  have s2: "?s2 = ?s1\<lparr>doc := (doc s)[nat (line ?p) :=
                      take (nat (ch ?p)) ?ln @ [c, x] @ drop (nat (ch ?p)) ?ln],
             sels := map (\<lambda>r. (adjustForChange ?p [[c, x]] ?p (fst r),
                                adjustForChange ?p [[c, x]] ?p (snd r))) (sels s),
             calls := calls s @ [ReplaceRange [c, x] ?p None]\<rparr>"
    using replaceRange_insert [OF vp nolf]
    by (simp add: preventDefault_def cursorLine_def)
  from assms(1) have "validPos (doc ?s2) ?q"
    using validPos_line [of "doc s" ?p]
    by (auto simp add: s2 wellFormed_def validPos_def cursorLine_def)
  then have clip: "clipPos (doc ?s2) ?q = ?q"
    by (rule clipPos_valid)
  have notsel: "\<not> somethingSelected ?s1"
    using assms(3) by (simp add: somethingSelected_def preventDefault_def)
  have auto_eq: "autocomplete [c] (Some [x]) ?p (s\<lparr>lookups := lookups s @ [[c]]\<rparr>)
          = setCursor ?q ?s2"
    using notsel by (simp add: autocomplete_def Let_def jsString_def)
  have run: "handleKeypress s c = Inr (setCursor ?q ?s2)"
  proof (cases "isCloseBracket [c]")
    case True
    with assms(4) have "[c] \<noteq> charAt ?ln (ch ?p)"
      by (auto simp add: nextCharOf_def)
    with True assms(2) x(1) auto_eq show ?thesis
      by (simp add: handleKeypress_def getLine_cursor [OF assms(1)] Let_def
          callGetCloseBracket_def handlePunctuation_def)
  next
    case False
    with assms(2) x(1) auto_eq show ?thesis
      by (simp add: handleKeypress_def getLine_cursor [OF assms(1)] Let_def
          callGetCloseBracket_def)
  qed
  have d2: "doc ?s2 = (doc s)[nat (line ?p) :=
                      take (nat (ch ?p)) ?ln @ [c, x] @ drop (nat (ch ?p)) ?ln]"
    unfolding s2 by simp
  have c2: "calls ?s2 = calls s @ [ReplaceRange [c, x] ?p None]"
    unfolding s2 by simp
  have p2: "defaultPrevented ?s2"
    unfolding s2 by (simp add: preventDefault_def)
  have "doc (setCursor ?q ?s2) = (doc s)[nat (line ?p) :=
                      take (nat (ch ?p)) ?ln @ [c, x] @ drop (nat (ch ?p)) ?ln]"
    and "sels (setCursor ?q ?s2) = [(?q, ?q)]"
    and "defaultPrevented (setCursor ?q ?s2)"
    and "calls (setCursor ?q ?s2) = calls s @ [ReplaceRange [c, x] ?p None, SetCursor ?q]"
    using d2 c2 p2 clip by (simp_all add: setCursor_def)
  with x(1) run show ?thesis
    by blast
qed

theorem keypress_inserts_pair_witness:
  "wellFormed (editor [''f(x''] [(Pos 0 2, Pos 0 2)])
   \<and> isOpenBracket ''[''
   \<and> \<not> somethingSelected (editor [''f(x''] [(Pos 0 2, Pos 0 2)])
   \<and> \<not> (isCloseBracket ''['' \<and> nextCharOf (editor [''f(x''] [(Pos 0 2, Pos 0 2)]) = ''['')
   \<and> (\<exists>t. handleKeypress (editor [''f(x''] [(Pos 0 2, Pos 0 2)]) CHR ''['' = Inr t
          \<and> doc t = [''f([]x''] \<and> sels t = [(Pos 0 3, Pos 0 3)] \<and> defaultPrevented t
          \<and> calls t = [ReplaceRange ''[]'' (Pos 0 2) None, SetCursor (Pos 0 3)])"
  using keypress_inserts_pair [of "editor [''f(x''] [(Pos 0 2, Pos 0 2)]" "CHR ''[''"]
  by (simp add: eval_defs)

text \<open>
  C1 as stated covers every opener. A double quote is an opener; typed in front of a
  double quote with no selection, it is typed through: the cursor moves and nothing is
  inserted.
\<close>

theorem quote_before_quote_counterexample:
  "isOpenBracket [CHR 0x22]
   \<and> \<not> somethingSelected (editor [[CHR 0x22]] [(Pos 0 0, Pos 0 0)])
   \<and> handleKeypress (editor [[CHR 0x22]] [(Pos 0 0, Pos 0 0)]) (CHR 0x22)
       = Inr ((editor [[CHR 0x22]] [(Pos 0 1, Pos 0 1)])
               \<lparr>defaultPrevented := True, calls := [SetCursor (Pos 0 1)],
                lookups := [[CHR 0x22]]\<rparr>)"
  by (simp add: eval_defs handleKeypress_def getLine_def Let_def callGetCloseBracket_def
      handlePunctuation_def handleRightBracket_def setCursor_def preventDefault_def
      clipPos_def clipToLen_def)

subsection \<open>Deleting an empty pair (C4)\<close>

lemma replaceRange_one_line:
  assumes "validPos (doc s) (Pos l i)" and "validPos (doc s) (Pos l j)" and "i \<le> j"
    and "CHR 0x0A \<notin> set txt"
  shows "replaceRange txt (Pos l i) (Some (Pos l j)) s =
           s\<lparr>doc := (doc s)[nat l := take (nat i) (doc s ! nat l) @ txt
                                     @ drop (nat j) (doc s ! nat l)],
             sels := map (\<lambda>r. (adjustForChange (Pos l i) [txt] (Pos l j) (fst r),
                                adjustForChange (Pos l i) [txt] (Pos l j) (snd r)))
                        (sels s),
             calls := calls s @ [ReplaceRange txt (Pos l i) (Some (Pos l j))]\<rparr>"
proof -
  from assms(1) have l: "0 \<le> l" "nat l < length (doc s)"
    using validPos_line [OF assms(1)] by (simp_all add: validPos_def)
  show ?thesis
    using assms l
    by (simp add: replaceRange_def clipPos_valid splitLines_plain cmp_def Let_def
        updateDoc_one_line)
qed

lemma getCloseBracket_isClose:
  "isOpenBracket a \<Longrightarrow> getCloseBracket a = Some b \<Longrightarrow> isCloseBracket b \<and> length a = 1"
  by (auto simp add: isOpenBracket_def isCloseBracket_def getCloseBracket_def brackets_def)

text \<open>
  C4. With no active selection, an opener before the cursor and that opener's own closer
  after it, \<^verbatim>\<open>handleBackspace\<close> suppresses the default deletion and removes both
  characters in one \<^verbatim>\<open>replaceRange\<close>: the line of the cursor loses exactly the two
  characters around the cursor, no other line changes, and the cursor ends one column to
  the left, where the pair was. In every other configuration (a selection is active, or
  the characters around the cursor are not such a pair) the listener changes nothing
  that the host can observe, so the default deletion applies. The witness is the line
  \<open>a()b\<close> with the cursor between the parentheses, which becomes \<open>ab\<close> with the cursor
  between \<open>a\<close> and \<open>b\<close>.
\<close>

theorem backspace_deletes_pair:
  assumes "wellFormed s"
  shows "(\<not> somethingSelected s \<and> isOpenBracket (prevCharOf s)
            \<and> Some (nextCharOf s) = getCloseBracket (prevCharOf s)
          \<longrightarrow> (\<exists>t. handleBackspace s = Inr t
                \<and> doc t = (doc s)[nat (line (getCursor s)) :=
                             take (nat (ch (getCursor s) - 1)) (cursorLine s)
                             @ drop (nat (ch (getCursor s) + 1)) (cursorLine s)]
                \<and> length (doc t ! nat (line (getCursor s))) + 2 = length (cursorLine s)
                \<and> getCursor t = Pos (line (getCursor s)) (ch (getCursor s) - 1)
                \<and> defaultPrevented t
                \<and> calls t = calls s @ [ReplaceRange []
                                         (Pos (line (getCursor s)) (ch (getCursor s) - 1))
                                         (Some (Pos (line (getCursor s)) (ch (getCursor s) + 1)))]))
       \<and> (\<not> (\<not> somethingSelected s \<and> isOpenBracket (prevCharOf s)
               \<and> Some (nextCharOf s) = getCloseBracket (prevCharOf s))
          \<longrightarrow> (\<exists>t. handleBackspace s = Inr t \<and> sameEditor s t))"
proof (intro conjI impI)
  assume cond: "\<not> somethingSelected s \<and> isOpenBracket (prevCharOf s)
            \<and> Some (nextCharOf s) = getCloseBracket (prevCharOf s)"
  let ?p = "getCursor s"
  let ?l = "line ?p"
  let ?ln = "cursorLine s"
  let ?f = "Pos ?l (ch ?p - 1)"
  let ?t = "Pos ?l (ch ?p + 1)"
  let ?s1 = "preventDefault (s\<lparr>lookups := lookups s @ [prevCharOf s]\<rparr>)"
  from cond getCloseBracket_isClose [of "prevCharOf s" "nextCharOf s"]
  have "length (prevCharOf s) = 1" and "isCloseBracket (nextCharOf s)"
    by simp_all
  then have prev: "0 \<le> ch ?p - 1" and nxt: "ch ?p < int (length ?ln)"
    by (auto simp add: prevCharOf_def nextCharOf_def charAt_def split: if_splits)
  from assms have line_ok: "0 \<le> ?l" "nat ?l < length (doc s)"
    using validPos_line [of "doc s" ?p] by (simp_all add: wellFormed_def validPos_def)
  have vf: "validPos (doc ?s1) ?f" and vt: "validPos (doc ?s1) ?t"
    using assms prev nxt
    by (simp_all add: wellFormed_def validPos_def preventDefault_def cursorLine_def)
  let ?t2 = "replaceRange [] ?f (Some ?t) ?s1"
  have t2: "?t2 = ?s1\<lparr>doc := (doc ?s1)[nat ?l := take (nat (ch ?p - 1)) (doc ?s1 ! nat ?l) @ []
                                     @ drop (nat (ch ?p + 1)) (doc ?s1 ! nat ?l)],
             sels := map (\<lambda>r. (adjustForChange ?f [[]] ?t (fst r),
                                adjustForChange ?f [[]] ?t (snd r)))
                        (sels ?s1),
             calls := calls ?s1 @ [ReplaceRange [] ?f (Some ?t)]\<rparr>"
    by (rule replaceRange_one_line [OF vf vt]) simp_all
  have run: "handleBackspace s = Inr ?t2"
    using cond
    by (simp add: handleBackspace_def getLine_cursor [OF assms] Let_def callGetCloseBracket_def
        prevCharOf_def nextCharOf_def)
  have d2: "doc ?t2 = (doc s)[nat ?l := take (nat (ch ?p - 1)) ?ln @ drop (nat (ch ?p + 1)) ?ln]"
    unfolding t2 by (simp add: preventDefault_def cursorLine_def)
  have len: "length (doc ?t2 ! nat ?l) + 2 = length ?ln"
    unfolding d2 using line_ok prev nxt by (auto simp add: cursorLine_def)
  have adj: "adjustForChange ?f [[]] ?t ?p = ?f"
    by (simp add: adjustForChange_def cmp_def changeEnd_def)
  have cur: "getCursor ?t2 = ?f"
    unfolding t2 using assms adj
    by (simp add: getCursor_def wellFormed_def preventDefault_def)
  have pd: "defaultPrevented ?t2" and cl: "calls ?t2 = calls s @ [ReplaceRange [] ?f (Some ?t)]"
    unfolding t2 by (simp_all add: preventDefault_def)
  from run d2 len cur pd cl
  show "\<exists>t. handleBackspace s = Inr t
                \<and> doc t = (doc s)[nat (line (getCursor s)) :=
                             take (nat (ch (getCursor s) - 1)) (cursorLine s)
                             @ drop (nat (ch (getCursor s) + 1)) (cursorLine s)]
                \<and> length (doc t ! nat (line (getCursor s))) + 2 = length (cursorLine s)
                \<and> getCursor t = Pos (line (getCursor s)) (ch (getCursor s) - 1)
                \<and> defaultPrevented t
                \<and> calls t = calls s @ [ReplaceRange []
                                         (Pos (line (getCursor s)) (ch (getCursor s) - 1))
                                         (Some (Pos (line (getCursor s)) (ch (getCursor s) + 1)))]"
    by blast
next
  assume ncond: "\<not> (\<not> somethingSelected s \<and> isOpenBracket (prevCharOf s)
               \<and> Some (nextCharOf s) = getCloseBracket (prevCharOf s))"
  then show "\<exists>t. handleBackspace s = Inr t \<and> sameEditor s t"
    by (auto simp add: handleBackspace_def getLine_cursor [OF assms] Let_def
        callGetCloseBracket_def prevCharOf_def nextCharOf_def sameEditor_def)
qed

theorem backspace_deletes_pair_witness:
  "wellFormed (editor [''a()b''] [(Pos 0 2, Pos 0 2)])
   \<and> \<not> somethingSelected (editor [''a()b''] [(Pos 0 2, Pos 0 2)])
   \<and> isOpenBracket (prevCharOf (editor [''a()b''] [(Pos 0 2, Pos 0 2)]))
   \<and> Some (nextCharOf (editor [''a()b''] [(Pos 0 2, Pos 0 2)]))
       = getCloseBracket (prevCharOf (editor [''a()b''] [(Pos 0 2, Pos 0 2)]))
   \<and> (\<exists>t. handleBackspace (editor [''a()b''] [(Pos 0 2, Pos 0 2)]) = Inr t
         \<and> doc t = [''ab''] \<and> getCursor t = Pos 0 1 \<and> defaultPrevented t
         \<and> calls t = [ReplaceRange [] (Pos 0 1) (Some (Pos 0 3))])
   \<and> wellFormed (editor [''a(]b''] [(Pos 0 2, Pos 0 2)])
   \<and> Some (nextCharOf (editor [''a(]b''] [(Pos 0 2, Pos 0 2)]))
       \<noteq> getCloseBracket (prevCharOf (editor [''a(]b''] [(Pos 0 2, Pos 0 2)]))
   \<and> (\<exists>t. handleBackspace (editor [''a(]b''] [(Pos 0 2, Pos 0 2)]) = Inr t
         \<and> sameEditor (editor [''a(]b''] [(Pos 0 2, Pos 0 2)]) t)"
  using backspace_deletes_pair [of "editor [''a()b''] [(Pos 0 2, Pos 0 2)]"]
    backspace_deletes_pair [of "editor [''a(]b''] [(Pos 0 2, Pos 0 2)]"]
  by (auto simp add: eval_defs)

subsection \<open>Enter between a pair (C6)\<close>

lemma length_takeWhile_stop:
  "k < length xs \<Longrightarrow> \<not> P (xs ! k) \<Longrightarrow> length (takeWhile P xs) \<le> k"
proof (induction xs arbitrary: k)
  case Nil
  then show ?case by simp
next
  case (Cons x xs)
  then show ?case
    by (cases k) auto
qed

lemma leadingSpace_prefix:
  assumes "isOpenBracket (charAt ln (i - 1))"
  shows "\<exists>body. take (nat i) ln = leadingSpace ln @ body"
proof -
  from assms have "charAt ln (i - 1) \<noteq> []"
    by auto
  then have k: "0 \<le> i - 1" "i - 1 < int (length ln)"
    by (simp_all add: charAt_def split: if_splits)
  with assms have "isOpenBracket [ln ! nat (i - 1)]"
    by (simp add: charAt_def)
  then have "\<not> isSpace (ln ! nat (i - 1))"
    by (auto simp add: isOpenBracket_char isSpace_def)
  then have "length (takeWhile isSpace ln) \<le> nat (i - 1)"
    using k by (intro length_takeWhile_stop) simp_all
  then have le: "length (leadingSpace ln) \<le> nat i"
    by (simp add: leadingSpace_def)
  have "leadingSpace ln = take (length (leadingSpace ln)) ln"
    unfolding leadingSpace_def by (rule takeWhile_eq_take)
  also have "\<dots> = take (length (leadingSpace ln)) (take (nat i) ln)"
    using le by (simp add: min_def)
  finally have "take (nat i) ln = leadingSpace ln @ drop (length (leadingSpace ln)) (take (nat i) ln)"
    by (metis append_take_drop_id)
  then show ?thesis
    by blast
qed


lemma replaceRange_split:
  assumes "validPos (doc s) p" and "CHR 0x0A \<notin> set m" and "CHR 0x0A \<notin> set e"
  shows "replaceRange (CHR 0x0A # m @ CHR 0x0A # e) p None s =
           s\<lparr>doc := take (nat (line p)) (doc s)
                     @ [take (nat (ch p)) (doc s ! nat (line p)), m,
                        e @ drop (nat (ch p)) (doc s ! nat (line p))]
                     @ drop (Suc (nat (line p))) (doc s),
             sels := map (\<lambda>r. (adjustForChange p [[], m, e] p (fst r),
                                adjustForChange p [[], m, e] p (snd r)))
                        (sels s),
             calls := calls s @ [ReplaceRange (CHR 0x0A # m @ CHR 0x0A # e) p None]\<rparr>"
proof -
  obtain l i where p: "p = Pos l i" by (cases p)
  have "splitLines (CHR 0x0A # m @ CHR 0x0A # e) = [[], m, e]"
    using assms(2,3) by (simp add: splitLines_append splitLines_plain)
  then show ?thesis
    using assms(1)
    by (simp add: replaceRange_def clipPos_valid cmp_def Let_def p updateDoc_three_lines)
qed

text \<open>
  C6. When the cursor stands between an opener and that opener's closer, the indent unit
  \<open>w\<close> is not negative and the line holds no line break, \<^verbatim>\<open>handleEnter\<close> suppresses the
  default and replaces the line of the cursor by three lines: the text before the cursor,
  which begins with the leading white space of the line; a line made of that leading
  white space and \<open>w\<close> spaces, with the cursor at its end; and the leading white space
  followed by the text that stood after the cursor. With \<open>w = 0\<close> the middle line is
  still there. The witness is the line of two spaces and \<open>foo()\<close> with \<open>w = 2\<close>, and
  \<open>{}\<close> with \<open>w = 0\<close>.
\<close>

theorem enter_splits_pair:
  assumes "wellFormed s" and "isOpenBracket (prevCharOf s)"
    and "Some (nextCharOf s) = getCloseBracket (prevCharOf s)"
    and "0 \<le> indentUnit s" and "CHR 0x0A \<notin> set (cursorLine s)"
  shows "\<exists>t body. handleEnter s = Inr t
           \<and> doc t = take (nat (line (getCursor s))) (doc s)
                     @ [take (nat (ch (getCursor s))) (cursorLine s),
                        leadingSpace (cursorLine s) @ replicate (nat (indentUnit s)) CHR 0x20,
                        leadingSpace (cursorLine s) @ drop (nat (ch (getCursor s))) (cursorLine s)]
                     @ drop (Suc (nat (line (getCursor s)))) (doc s)
           \<and> take (nat (ch (getCursor s))) (cursorLine s) = leadingSpace (cursorLine s) @ body
           \<and> sels t = [(Pos (line (getCursor s) + 1)
                             (int (length (leadingSpace (cursorLine s)
                                           @ replicate (nat (indentUnit s)) CHR 0x20))),
                        Pos (line (getCursor s) + 1)
                             (int (length (leadingSpace (cursorLine s)
                                           @ replicate (nat (indentUnit s)) CHR 0x20))))]
           \<and> defaultPrevented t
           \<and> calls t = calls s
                 @ [ReplaceRange (CHR 0x0A # (leadingSpace (cursorLine s)
                                               @ replicate (nat (indentUnit s)) CHR 0x20)
                                  @ CHR 0x0A # leadingSpace (cursorLine s))
                      (getCursor s) None,
                    SetCursor (Pos (line (getCursor s) + 1)
                                   (int (length (leadingSpace (cursorLine s))) + indentUnit s))]"
proof -
  let ?p = "getCursor s"
  let ?l = "line ?p"
  let ?ln = "cursorLine s"
  let ?ind = "leadingSpace ?ln"
  let ?mid = "?ind @ replicate (nat (indentUnit s)) CHR 0x20"
  let ?q = "Pos (?l + 1) (int (length ?ind) + indentUnit s)"
  let ?s1 = "preventDefault s"
  let ?new = "CHR 0x0A # ?mid @ CHR 0x0A # ?ind"
  let ?s2 = "replaceRange ?new ?p None ?s1"
  from assms(2,3) have closer: "isCloseBracket (nextCharOf s)"
    using getCloseBracket_isClose [of "prevCharOf s" "nextCharOf s"] by simp
  from assms(2) obtain body where body: "take (nat (ch ?p)) ?ln = ?ind @ body"
    using leadingSpace_prefix [of ?ln "ch ?p"] by (auto simp add: prevCharOf_def)
  have ind_nolf: "CHR 0x0A \<notin> set ?ind"
    using assms(5) by (auto simp add: leadingSpace_def dest: set_takeWhileD)
  then have mid_nolf: "CHR 0x0A \<notin> set ?mid"
    by auto
  from assms(1) have vp: "validPos (doc ?s1) ?p"
    by (simp add: wellFormed_def preventDefault_def)
  have s2: "?s2 = ?s1\<lparr>doc := take (nat ?l) (doc ?s1)
                     @ [take (nat (ch ?p)) (doc ?s1 ! nat ?l), ?mid,
                        ?ind @ drop (nat (ch ?p)) (doc ?s1 ! nat ?l)]
                     @ drop (Suc (nat ?l)) (doc ?s1),
             sels := map (\<lambda>r. (adjustForChange ?p [[], ?mid, ?ind] ?p (fst r),
                                adjustForChange ?p [[], ?mid, ?ind] ?p (snd r)))
                        (sels ?s1),
             calls := calls ?s1 @ [ReplaceRange ?new ?p None]\<rparr>"
    by (rule replaceRange_split [OF vp mid_nolf ind_nolf])
  have d2: "doc ?s2 = take (nat ?l) (doc s)
                     @ [take (nat (ch ?p)) ?ln, ?mid, ?ind @ drop (nat (ch ?p)) ?ln]
                     @ drop (Suc (nat ?l)) (doc s)"
    unfolding s2 by (simp add: preventDefault_def cursorLine_def)
  have c2: "calls ?s2 = calls s @ [ReplaceRange ?new ?p None]"
    unfolding s2 by (simp add: preventDefault_def)
  have p2: "defaultPrevented ?s2"
    unfolding s2 by (simp add: preventDefault_def)
  from assms(1) have line_ok: "0 \<le> ?l" "nat ?l < length (doc s)"
    using validPos_line [of "doc s" ?p] by (simp_all add: wellFormed_def validPos_def)
  have q_eq: "?q = Pos (?l + 1) (int (length ?mid))"
    using assms(4) by simp
  have "validPos (doc ?s2) ?q"
    unfolding d2 using line_ok assms(4)
    by (simp add: validPos_def nth_append nat_add_distrib)
  then have clip: "clipPos (doc ?s2) ?q = ?q"
    by (rule clipPos_valid)
  have run: "handleEnter s = Inr (setCursor ?q ?s2)"
    using assms(2,4) closer
    by (simp add: handleEnter_def getLine_cursor [OF assms(1)] Let_def prevCharOf_def
        nextCharOf_def getOption_indentUnit_def preventDefault_def)
  have "doc (setCursor ?q ?s2) = take (nat ?l) (doc s)
                     @ [take (nat (ch ?p)) ?ln, ?mid, ?ind @ drop (nat (ch ?p)) ?ln]
                     @ drop (Suc (nat ?l)) (doc s)"
    and "sels (setCursor ?q ?s2) = [(Pos (?l + 1) (int (length ?mid)), Pos (?l + 1) (int (length ?mid)))]"
    and "defaultPrevented (setCursor ?q ?s2)"
    and "calls (setCursor ?q ?s2) = calls s @ [ReplaceRange ?new ?p None, SetCursor ?q]"
    using d2 c2 p2 clip q_eq by (simp_all add: setCursor_def)
  with run body show ?thesis
    by blast
qed

theorem enter_splits_pair_witness:
  "wellFormed (editor [''  foo()''] [(Pos 0 6, Pos 0 6)])
   \<and> isOpenBracket (prevCharOf (editor [''  foo()''] [(Pos 0 6, Pos 0 6)]))
   \<and> Some (nextCharOf (editor [''  foo()''] [(Pos 0 6, Pos 0 6)]))
       = getCloseBracket (prevCharOf (editor [''  foo()''] [(Pos 0 6, Pos 0 6)]))
   \<and> 0 \<le> indentUnit (editor [''  foo()''] [(Pos 0 6, Pos 0 6)])
   \<and> CHR 0x0A \<notin> set (cursorLine (editor [''  foo()''] [(Pos 0 6, Pos 0 6)]))
   \<and> (\<exists>t. handleEnter (editor [''  foo()''] [(Pos 0 6, Pos 0 6)]) = Inr t
         \<and> doc t = [''  foo('', ''    '', ''  )'']
         \<and> sels t = [(Pos 1 4, Pos 1 4)] \<and> defaultPrevented t)
   \<and> (\<exists>t. handleEnter ((editor [''{}''] [(Pos 0 1, Pos 0 1)])\<lparr>indentUnit := 0\<rparr>) = Inr t
         \<and> doc t = [''{'', [], ''}''] \<and> sels t = [(Pos 1 0, Pos 1 0)])"
  using enter_splits_pair [of "editor [''  foo()''] [(Pos 0 6, Pos 0 6)]"]
    enter_splits_pair [of "(editor [''{}''] [(Pos 0 1, Pos 0 1)])\<lparr>indentUnit := 0\<rparr>"]
  by (auto simp add: eval_defs leadingSpace_def isSpace_def numeral_2_eq_2)

lemmas run_defs = handleKeypress_def handleEnter_def handleBackspace_def handleKeydown_def
  handlePunctuation_def handleRightBracket_def autocomplete_def wrapSelection_def
  callGetCloseBracket_def jsString_def preventDefault_def setCursor_def replaceRange_def
  getRange_def getBetween_def getLine_def listSelections_def getOption_indentUnit_def
  clipPos_def clipToLen_def cmp_def updateDoc_def spliceLines_def adjustForChange_def
  changeEnd_def leadingSpace_def isSpace_def Let_def

subsection \<open>Enter between an opener and a foreign closer (C3)\<close>

text \<open>
  C3 says that Enter is handled only between an opener and that opener's own closer.
  \<^verbatim>\<open>handleEnter\<close> tests \<^verbatim>\<open>isCloseBracket(nextChar)\<close>, which any closer satisfies. On
  the line \<open>(]\<close> with the cursor between the two characters, where the closer of the
  opener is the parenthesis and not the bracket, the listener suppresses the default and
  splits the line.
\<close>

theorem enter_between_mismatched_pair:
  "isOpenBracket (prevCharOf (editor [''(]''] [(Pos 0 1, Pos 0 1)]))
   \<and> getCloseBracket (prevCharOf (editor [''(]''] [(Pos 0 1, Pos 0 1)])) = Some '')''
   \<and> nextCharOf (editor [''(]''] [(Pos 0 1, Pos 0 1)]) = '']''
   \<and> handleEnter (editor [''(]''] [(Pos 0 1, Pos 0 1)])
       = Inr ((editor [''('', ''  '', '']''] [(Pos 1 2, Pos 1 2)])
               \<lparr>defaultPrevented := True,
                calls := [ReplaceRange [CHR 0x0A, CHR 0x20, CHR 0x20, CHR 0x0A] (Pos 0 1) None,
                          SetCursor (Pos 1 2)]\<rparr>)"
  by (simp add: eval_defs run_defs numeral_2_eq_2)

subsection \<open>The closer lookup on a character that is not an opener (C7)\<close>

text \<open>
  C7 says that \<^verbatim>\<open>getCloseBracket\<close> is never called on a character that is not known to
  be an opener. \<^verbatim>\<open>handleKeypress\<close> calls it on line 75 for every character that passed
  the test of line 70, before it looks at which of the two roles the character has.
  Typing a closing parenthesis in front of a closing parenthesis moves the cursor over
  it, and the trace of lookups holds that closing parenthesis, for which the table has
  no entry.
\<close>

theorem closer_lookup_on_closer:
  "\<not> isOpenBracket '')''
   \<and> getCloseBracket '')'' = None
   \<and> handleKeypress (editor [''()''] [(Pos 0 1, Pos 0 1)]) CHR '')''
       = Inr ((editor [''()''] [(Pos 0 2, Pos 0 2)])
               \<lparr>defaultPrevented := True, calls := [SetCursor (Pos 0 2)],
                lookups := ['')'']\<rparr>)"
  by (simp add: eval_defs run_defs)

subsection \<open>Edit commands per keystroke (C8)\<close>

text \<open>
  C8 as stated allows at most one edit command per keystroke for any snapshot. With
  two selections, typing an opener runs the body of the \<^verbatim>\<open>forEach\<close> twice and issues
  two calls of \<^verbatim>\<open>replaceRange\<close>.
\<close>

theorem two_selections_two_edits_counterexample:
  "handleKeypress (editor [''ab'', ''cd''] [(Pos 0 0, Pos 0 2), (Pos 1 0, Pos 1 2)]) CHR ''(''
     = Inr ((editor [''(ab)'', ''(cd)''] [(Pos 0 4, Pos 0 4), (Pos 1 4, Pos 1 4)])
             \<lparr>defaultPrevented := True,
              calls := [ReplaceRange ''(ab)'' (Pos 0 0) (Some (Pos 0 2)),
                        ReplaceRange ''(cd)'' (Pos 1 0) (Some (Pos 1 2))],
              lookups := [''('']\<rparr>)
   \<and> edits ((editor [''(ab)'', ''(cd)''] [(Pos 0 4, Pos 0 4), (Pos 1 4, Pos 1 4)])
             \<lparr>defaultPrevented := True,
              calls := [ReplaceRange ''(ab)'' (Pos 0 0) (Some (Pos 0 2)),
                        ReplaceRange ''(cd)'' (Pos 1 0) (Some (Pos 1 2))],
              lookups := [''('']\<rparr>) = 2"
  by code_simp

lemma edits_replaceRange [simp]: "edits (replaceRange code from to s) = Suc (edits s)"
  by (simp add: edits_def replaceRange_def Let_def)

lemma edits_setCursor [simp]: "edits (setCursor p s) = edits s"
  by (simp add: edits_def setCursor_def)

lemma edits_preventDefault [simp]: "edits (preventDefault s) = edits s"
  by (simp add: edits_def preventDefault_def)

lemma edits_defaultPrevented [simp]: "edits (s\<lparr>defaultPrevented := b\<rparr>) = edits s"
  by (simp add: edits_def)

lemma edits_lookups [simp]: "edits (s\<lparr>lookups := ls\<rparr>) = edits s"
  by (simp add: edits_def)

lemma edits_fold_wrapSelection:
  "edits (fold (wrapSelection char close) rs s) = edits s + length rs"
  by (induction rs arbitrary: s) (simp_all add: wrapSelection_def Let_def)

lemma edits_autocomplete:
  "edits (autocomplete char close p s)
     = edits s + (if somethingSelected s then length (sels s) else 1)"
  by (simp add: autocomplete_def Let_def edits_fold_wrapSelection listSelections_def
      somethingSelected_def preventDefault_def)

lemma edits_handleRightBracket [simp]: "edits (handleRightBracket p s) = edits s"
  by (simp add: handleRightBracket_def)

lemma somethingSelected_lookups [simp]:
  "somethingSelected (s\<lparr>lookups := ls\<rparr>) = somethingSelected s"
  by (simp add: somethingSelected_def)

text \<open>
  C8, as amended. On a well-formed state with a non-negative indent unit every listener
  returns normally, so whatever edit it starts it completes. A keydown issues at most
  one edit command. A keypress issues none, unless the character is an opener that is
  not typed through; then it issues exactly one when nothing is selected and exactly one
  per selection range when something is selected.
\<close>

theorem edits_per_keystroke:
  assumes "wellFormed s" and "0 \<le> indentUnit s"
  shows "\<exists>t u. handleKeypress s c = Inr t \<and> handleKeydown s key = Inr u
           \<and> edits t = edits s
               + (if isOpenBracket [c] \<and> \<not> (isCloseBracket [c] \<and> nextCharOf s = [c])
                  then (if somethingSelected s then length (sels s) else 1)
                  else 0)
           \<and> edits u \<le> edits s + 1"
proof -
  have kp: "\<exists>t. handleKeypress s c = Inr t
           \<and> edits t = edits s
               + (if isOpenBracket [c] \<and> \<not> (isCloseBracket [c] \<and> nextCharOf s = [c])
                  then (if somethingSelected s then length (sels s) else 1)
                  else 0)"
    by (auto simp add: handleKeypress_def getLine_cursor [OF assms(1)] Let_def
        callGetCloseBracket_def handlePunctuation_def nextCharOf_def edits_autocomplete)
  have en: "\<exists>u. handleEnter s = Inr u \<and> edits u \<le> edits s + 1"
    using assms(2)
    by (auto simp add: handleEnter_def getLine_cursor [OF assms(1)] Let_def
        getOption_indentUnit_def preventDefault_def)
  have bs: "\<exists>u. handleBackspace s = Inr u \<and> edits u \<le> edits s + 1"
    by (auto simp add: handleBackspace_def getLine_cursor [OF assms(1)] Let_def
        callGetCloseBracket_def)
  have kd: "\<exists>u. handleKeydown s key = Inr u \<and> edits u \<le> edits s + 1"
    using en bs by (simp add: handleKeydown_def)
  from kp kd show ?thesis
    by blast
qed

theorem edits_per_keystroke_witness:
  "wellFormed (editor [''ab'', ''cd''] [(Pos 0 0, Pos 0 2), (Pos 1 0, Pos 1 2)])
   \<and> 0 \<le> indentUnit (editor [''ab'', ''cd''] [(Pos 0 0, Pos 0 2), (Pos 1 0, Pos 1 2)])
   \<and> (\<exists>t u. handleKeypress (editor [''ab'', ''cd''] [(Pos 0 0, Pos 0 2), (Pos 1 0, Pos 1 2)])
               CHR ''('' = Inr t
            \<and> handleKeydown (editor [''ab'', ''cd''] [(Pos 0 0, Pos 0 2), (Pos 1 0, Pos 1 2)])
               ''Enter'' = Inr u
            \<and> edits t = 2 \<and> edits u \<le> 1)"
  using edits_per_keystroke [of "editor [''ab'', ''cd''] [(Pos 0 0, Pos 0 2), (Pos 1 0, Pos 1 2)]"
      "CHR ''(''" "''Enter''"]
  by (auto simp add: eval_defs edits_def)

subsection \<open>Wrapping selections (C2)\<close>

text \<open>Lines and the text they join to.\<close>

lemma splitLines_nonempty [simp]: "splitLines code \<noteq> []"
  by (induction code) auto

lemma joinLines_Cons: "ls \<noteq> [] \<Longrightarrow> joinLines (l # ls) = l @ CHR 0x0A # joinLines ls"
  by (cases ls) auto

lemma joinLines_splitLines: "joinLines (splitLines code) = code"
proof (induction code)
  case Nil
  then show ?case by simp
next
  case (Cons c cs)
  obtain l ls where sp: "splitLines cs = l # ls"
    by (cases "splitLines cs") auto
  with Cons show ?case
    by (cases ls) (auto simp add: joinLines_Cons)
qed

lemma length_splitLines:
  "length (splitLines code) = Suc (length (filter (\<lambda>c. c = CHR 0x0A) code))"
proof (induction code)
  case Nil
  then show ?case by simp
next
  case (Cons c cs)
  then show ?case
    by (cases "splitLines cs") auto
qed

lemma splitLines_lfFree: "lfFree (splitLines code)"
proof (induction code)
  case Nil
  then show ?case by (simp add: lfFree_def)
next
  case (Cons c cs)
  then show ?case
    by (cases "splitLines cs") (auto simp add: lfFree_def)
qed

lemma count_LF_joinLines:
  "lfFree ls \<Longrightarrow> ls \<noteq> [] \<Longrightarrow>
     Suc (length (filter (\<lambda>c. c = CHR 0x0A) (joinLines ls))) = length ls"
proof (induction ls rule: joinLines.induct)
  case 1
  then show ?case by simp
next
  case (2 l)
  then show ?case by (auto simp add: lfFree_def filter_empty_conv)
next
  case (3 l v va)
  then show ?case by (auto simp add: lfFree_def filter_empty_conv)
qed

lemma joinLines_prefix: "X \<noteq> [] \<Longrightarrow> joinLines ((pre @ hd X) # tl X) = pre @ joinLines X"
  by (cases X rule: joinLines.cases) auto

lemma joinLines_suffix: "X \<noteq> [] \<Longrightarrow> joinLines (butlast X @ [last X @ suf]) = joinLines X @ suf"
  by (induction X rule: joinLines.induct) (auto simp add: joinLines_Cons)

lemma joinLines_spliceLines:
  assumes "X \<noteq> []"
  shows "joinLines (spliceLines pre X suf) = pre @ joinLines X @ suf"
proof -
  let ?Y = "(pre @ hd X) # tl X"
  have "spliceLines pre X suf = butlast ?Y @ [last ?Y @ suf]"
    by (simp only: spliceLines_def Let_def)
  then have "joinLines (spliceLines pre X suf) = joinLines ?Y @ suf"
    using joinLines_suffix [of ?Y suf] by simp
  then show ?thesis
    using joinLines_prefix [OF assms, of pre] by simp
qed

lemma length_spliceLines: "X \<noteq> [] \<Longrightarrow> length (spliceLines pre X suf) = length X"
  by (cases X) (simp_all add: spliceLines_def Let_def)

lemma lfFree_spliceLines:
  assumes "lfFree X" and "X \<noteq> []" and "CHR 0x0A \<notin> set pre" and "CHR 0x0A \<notin> set suf"
  shows "lfFree (spliceLines pre X suf)"
proof -
  obtain x xs where X: "X = x # xs"
    using assms(2) by (cases X) auto
  let ?Y = "(pre @ x) # xs"
  have Y: "lfFree ?Y"
    using assms(1,3) by (simp add: X lfFree_def)
  then have "CHR 0x0A \<notin> set (last ?Y)" and "lfFree (butlast ?Y)"
    by (auto simp add: lfFree_def list_all_iff dest: in_set_butlastD)
  then show ?thesis
    using assms(4) by (simp add: spliceLines_def Let_def X lfFree_def)
qed

text \<open>One range: the text it holds and the lines that replace it.\<close>

lemma forwardRangeE:
  assumes "forwardRange d r"
  obtains la ca lh cb where "r = (Pos (int la) (int ca), Pos (int lh) (int cb))"
    and "la < length d" and "lh < length d" and "ca \<le> length (d ! la)"
    and "cb \<le> length (d ! lh)" and "la \<le> lh" and "la < lh \<or> ca < cb"
proof -
  obtain a h where r: "r = (a, h)" by (cases r)
  obtain l1 c1 where a: "a = Pos l1 c1" by (cases a)
  obtain l2 c2 where h: "h = Pos l2 c2" by (cases h)
  from assms have v: "0 \<le> l1" "l1 < int (length d)" "0 \<le> c1" "c1 \<le> int (length (d ! nat l1))"
    "0 \<le> l2" "l2 < int (length d)" "0 \<le> c2" "c2 \<le> int (length (d ! nat l2))"
    and lt: "cmp (Pos l1 c1) (Pos l2 c2) < 0"
    by (simp_all add: forwardRange_def validPos_def r a h)
  from lt have ord: "l1 < l2 \<or> (l1 = l2 \<and> c1 < c2)"
    by (simp add: cmp_def split: if_splits)
  show ?thesis
  proof (rule that [of "nat l1" "nat c1" "nat l2" "nat c2"])
    show "r = (Pos (int (nat l1)) (int (nat c1)), Pos (int (nat l2)) (int (nat c2)))"
      using v by (simp add: r a h)
    show "nat l1 < length d" "nat l2 < length d" using v by auto
    show "nat c1 \<le> length (d ! nat l1)" "nat c2 \<le> length (d ! nat l2)" using v by auto
    show "nat l1 \<le> nat l2" using ord v by auto
    show "nat l1 < nat l2 \<or> nat c1 < nat c2" using ord v by auto
  qed
qed

lemma nth_spliceLines:
  assumes "i < length X"
  shows "spliceLines pre X suf ! i
           = (if i = 0 then pre else []) @ X ! i @ (if Suc i = length X then suf else [])"
proof -
  from assms obtain x xs where X: "X = x # xs"
    by (cases X) auto
  let ?Y = "(pre @ x) # xs"
  have sp: "spliceLines pre X suf = butlast ?Y @ [last ?Y @ suf]"
    by (simp only: spliceLines_def Let_def X list.sel)
  have len: "length (butlast ?Y) = length xs"
    by simp
  show ?thesis
  proof (cases "Suc i = length X")
    case True
    then have i: "i = length xs" by (simp add: X)
    have "spliceLines pre X suf ! i = last ?Y @ suf"
      unfolding sp i using len by (metis nth_append_length)
    moreover have "last ?Y = (if i = 0 then pre else []) @ X ! i"
      using i by (cases xs) (auto simp add: X last_conv_nth)
    ultimately show ?thesis using True by simp
  next
    case False
    with assms have lt: "i < length xs" by (simp add: X)
    then have "spliceLines pre X suf ! i = butlast ?Y ! i"
      unfolding sp using len by (metis nth_append)
    also have "\<dots> = ?Y ! i"
      using lt by (intro nth_butlast) (simp only: len)
    finally show ?thesis using False lt by (cases i; cases xs) (simp_all add: X)
  qed
qed

lemma getBetween_nat:
  "getBetween d (Pos (int la) (int ca)) (Pos (int lh) (int cb))
     = map (\<lambda>n. (if n = la then drop ca else id) ((if n = lh then take cb else id) (d ! n)))
           [la..<Suc lh]"
  by (simp add: getBetween_def Let_def nat_add_distrib)

lemma length_spanLines:
  "lh < length d \<Longrightarrow> length (spanLines d (Pos (int la) ca, Pos (int lh) cb)) = Suc lh - la"
  by (auto simp add: spanLines_def)

lemma nth_spanLines:
  "lh < length d \<Longrightarrow> la + i \<le> lh \<Longrightarrow>
     spanLines d (Pos (int la) ca, Pos (int lh) cb) ! i = d ! (la + i)"
  by (simp add: spanLines_def)

lemma spanLines_splice:
  assumes "la < length d" and "lh < length d" and "ca \<le> length (d ! la)"
    and "cb \<le> length (d ! lh)" and "la \<le> lh" and "la < lh \<or> ca < cb"
  shows "spanLines d (Pos (int la) (int ca), Pos (int lh) (int cb))
           = spliceLines (take ca (d ! la))
               (getBetween d (Pos (int la) (int ca)) (Pos (int lh) (int cb)))
               (drop cb (d ! lh))"
    (is "?L = spliceLines ?pre ?G ?suf")
proof (rule nth_equalityI)
  have lenG: "length ?G = Suc lh - la"
    by (simp add: getBetween_nat del: upt_Suc)
  then have G_ne: "?G \<noteq> []"
    using assms(5) by auto
  show len: "length ?L = length (spliceLines ?pre ?G ?suf)"
    using assms lenG G_ne by (simp add: length_spanLines length_spliceLines)
  fix i assume "i < length ?L"
  then have i: "la + i \<le> lh" "i < length ?G"
    using assms lenG by (simp_all add: length_spanLines)
  have L: "?L ! i = d ! (la + i)"
    using assms i by (simp add: nth_spanLines)
  have G: "?G ! i = (if i = 0 then drop ca else id)
                      ((if la + i = lh then take cb else id) (d ! (la + i)))"
    using i lenG by (simp add: getBetween_nat del: upt_Suc)
  have last_iff: "Suc i = length ?G \<longleftrightarrow> la + i = lh"
    using lenG assms(5) i by auto
  have "spliceLines ?pre ?G ?suf ! i
          = (if i = 0 then ?pre else []) @ ?G ! i @ (if la + i = lh then ?suf else [])"
    using nth_spliceLines [OF i(2)] last_iff by simp
  also have "\<dots> = d ! (la + i)"
  proof (cases "i = 0")
    case True
    show ?thesis
    proof (cases "la = lh")
      case True
      with assms(6) have "ca < cb" by auto
      then have "take ca (d ! la) = take ca (take cb (d ! la))"
        by (simp add: min_def)
      then have "take ca (d ! la) @ drop ca (take cb (d ! la)) = take cb (d ! la)"
        by (metis append_take_drop_id)
      then have whole: "take ca (d ! la) @ drop ca (take cb (d ! la)) @ drop cb (d ! la) = d ! la"
        by (metis append_assoc append_take_drop_id)
      have "?G ! i = drop ca (take cb (d ! la))"
        using G True \<open>i = 0\<close> by simp
      then have "(if i = 0 then ?pre else []) @ ?G ! i @ (if la + i = lh then ?suf else [])
                   = take ca (d ! la) @ drop ca (take cb (d ! la)) @ drop cb (d ! lh)"
        using True \<open>i = 0\<close> by simp
      also have "\<dots> = d ! (la + i)"
        using whole True \<open>i = 0\<close> by simp
      finally show ?thesis .
    next
      case False
      with \<open>i = 0\<close> G show ?thesis
        by simp
    qed
  next
    case False
    with G show ?thesis
      by simp
  qed
  finally show "?L ! i = spliceLines ?pre ?G ?suf ! i"
    using L by simp
qed

lemma lfFree_nth: "lfFree d \<Longrightarrow> n < length d \<Longrightarrow> CHR 0x0A \<notin> set (d ! n)"
  by (simp add: lfFree_def list_all_length)

lemma lfFree_getBetween:
  assumes "lfFree d" and "lh < length d"
  shows "lfFree (getBetween d (Pos (int la) (int ca)) (Pos (int lh) (int cb)))"
proof -
  have "CHR 0x0A \<notin> set ((if n = la then drop ca else id) ((if n = lh then take cb else id) (d ! n)))"
    if "n \<in> set [la..<Suc lh]" for n
  proof -
    from that assms(2) have "n < length d" by auto
    with assms(1) have "CHR 0x0A \<notin> set (d ! n)" by (rule lfFree_nth)
    then show ?thesis
      by (auto dest: in_set_takeD in_set_dropD)
  qed
  then show ?thesis
    unfolding getBetween_nat lfFree_def list_all_iff by auto
qed

lemma wrapLines_facts:
  assumes "lfFree d" and "la < length d" and "lh < length d" and "la \<le> lh"
    and "c \<noteq> CHR 0x0A" and "x \<noteq> CHR 0x0A"
  shows "length (wrapLines c x d (Pos (int la) (int ca), Pos (int lh) (int cb))) = Suc lh - la"
    and "lfFree (wrapLines c x d (Pos (int la) (int ca), Pos (int lh) (int cb)))"
    and "joinLines (wrapLines c x d (Pos (int la) (int ca), Pos (int lh) (int cb)))
           = take ca (d ! la) @ c # joinLines (getBetween d (Pos (int la) (int ca)) (Pos (int lh) (int cb))) @ x # drop cb (d ! lh)"
proof -
  let ?G = "getBetween d (Pos (int la) (int ca)) (Pos (int lh) (int cb))"
  let ?text = "splitLines (c # joinLines ?G @ [x])"
  have lenG: "length ?G = Suc lh - la"
    by (simp add: getBetween_nat del: upt_Suc)
  then have G_ne: "?G \<noteq> []"
    using assms(4) by auto
  have lfG: "lfFree ?G"
    using assms(1,3) by (rule lfFree_getBetween)
  have "length ?text = length ?G"
    using count_LF_joinLines [OF lfG G_ne] assms(5,6) by (simp add: length_splitLines)
  with lenG have len_text: "length ?text = Suc lh - la"
    by simp
  have W: "wrapLines c x d (Pos (int la) (int ca), Pos (int lh) (int cb)) = spliceLines (take ca (d ! la)) ?text (drop cb (d ! lh))"
    by (simp add: wrapLines_def)
  show "length (wrapLines c x d (Pos (int la) (int ca), Pos (int lh) (int cb))) = Suc lh - la"
    unfolding W using len_text by (simp add: length_spliceLines)
  have "CHR 0x0A \<notin> set (take ca (d ! la))" and "CHR 0x0A \<notin> set (drop cb (d ! lh))"
    using lfFree_nth [OF assms(1,2)] lfFree_nth [OF assms(1,3)]
    by (auto dest: in_set_takeD in_set_dropD)
  then show "lfFree (wrapLines c x d (Pos (int la) (int ca), Pos (int lh) (int cb)))"
    unfolding W by (intro lfFree_spliceLines splitLines_lfFree) simp_all
  show "joinLines (wrapLines c x d (Pos (int la) (int ca), Pos (int lh) (int cb)))
           = take ca (d ! la) @ c # joinLines (getBetween d (Pos (int la) (int ca)) (Pos (int lh) (int cb))) @ x # drop cb (d ! lh)"
    unfolding W by (simp add: joinLines_spliceLines joinLines_splitLines del: splitLines.simps)
qed

lemma wrapSelection_forward:
  assumes "la < length (doc s)" and "lh < length (doc s)" and "ca \<le> length (doc s ! la)"
    and "cb \<le> length (doc s ! lh)" and "la \<le> lh" and "la < lh \<or> ca < cb"
  shows "doc (wrapSelection [c] (Some [x]) (Pos (int la) (int ca), Pos (int lh) (int cb)) s)
           = take la (doc s)
             @ wrapLines c x (doc s) (Pos (int la) (int ca), Pos (int lh) (int cb))
             @ drop (Suc lh) (doc s)"
    and "calls (wrapSelection [c] (Some [x]) (Pos (int la) (int ca), Pos (int lh) (int cb)) s)
           = calls s @ [ReplaceRange
                          (c # getRange s (Pos (int la) (int ca)) (Pos (int lh) (int cb)) @ [x])
                          (Pos (int la) (int ca)) (Some (Pos (int lh) (int cb)))]"
    and "defaultPrevented (wrapSelection [c] (Some [x])
                             (Pos (int la) (int ca), Pos (int lh) (int cb)) s)
           = defaultPrevented s"
proof -
  let ?a = "Pos (int la) (int ca)" and ?h = "Pos (int lh) (int cb)"
  have va: "clipPos (doc s) ?a = ?a" and vh: "clipPos (doc s) ?h = ?h"
    using assms by (simp_all add: clipPos_valid validPos_def)
  have ord: "\<not> cmp ?h ?a < 0"
    using assms(5,6) by (auto simp add: cmp_def)
  show "doc (wrapSelection [c] (Some [x]) (?a, ?h) s)
           = take la (doc s) @ wrapLines c x (doc s) (?a, ?h) @ drop (Suc lh) (doc s)"
    using va vh ord
    by (simp add: wrapSelection_def replaceRange_def Let_def jsString_def getRange_def
        updateDoc_def wrapLines_def del: splitLines.simps)
  show "calls (wrapSelection [c] (Some [x]) (?a, ?h) s)
           = calls s @ [ReplaceRange (c # getRange s ?a ?h @ [x]) ?a (Some ?h)]"
    by (simp add: wrapSelection_def replaceRange_def Let_def jsString_def)
  show "defaultPrevented (wrapSelection [c] (Some [x]) (?a, ?h) s) = defaultPrevented s"
    by (simp add: wrapSelection_def replaceRange_def Let_def)
qed

lemma splice_frame:
  assumes "lh < length d" and "la \<le> lh" and "length W = Suc lh - la"
  shows "length (take la d @ W @ drop (Suc lh) d) = length d"
    and "n < la \<Longrightarrow> (take la d @ W @ drop (Suc lh) d) ! n = d ! n"
    and "lh < n \<Longrightarrow> n < length d \<Longrightarrow> (take la d @ W @ drop (Suc lh) d) ! n = d ! n"
    and "spanLines (take la d @ W @ drop (Suc lh) d) (Pos (int la) ca, Pos (int lh) cb) = W"
proof -
  let ?d' = "take la d @ W @ drop (Suc lh) d"
  have la: "length (take la d) = la"
    using assms by simp
  show "length ?d' = length d"
    using assms by simp
  show "?d' ! n = d ! n" if "n < la"
    using that la by (simp add: nth_append)
  show "?d' ! n = d ! n" if "lh < n" "n < length d"
  proof -
    from that assms have "n - la - length W = n - Suc lh" and "\<not> n < la" and "\<not> n - la < length W"
      by auto
    then have "?d' ! n = drop (Suc lh) d ! (n - Suc lh)"
      using la by (simp add: nth_append)
    also have "\<dots> = d ! n"
      using that assms by simp
    finally show ?thesis .
  qed
  show "spanLines ?d' (Pos (int la) ca, Pos (int lh) cb) = W"
    using assms la by (simp add: spanLines_def)
qed

lemma spanLines_cong:
  assumes "length d1 = length d" and "lh < length d"
    and "\<And>n. la \<le> n \<Longrightarrow> n \<le> lh \<Longrightarrow> d1 ! n = d ! n"
  shows "spanLines d1 (Pos (int la) ca, Pos (int lh) cb)
           = spanLines d (Pos (int la) ca, Pos (int lh) cb)"
proof (rule nth_equalityI)
  show "length (spanLines d1 (Pos (int la) ca, Pos (int lh) cb))
          = length (spanLines d (Pos (int la) ca, Pos (int lh) cb))"
    using assms(1,2) by (simp add: length_spanLines)
  fix i assume "i < length (spanLines d1 (Pos (int la) ca, Pos (int lh) cb))"
  then have "la + i \<le> lh"
    using assms(1,2) by (simp add: length_spanLines)
  then show "spanLines d1 (Pos (int la) ca, Pos (int lh) cb) ! i
               = spanLines d (Pos (int la) ca, Pos (int lh) cb) ! i"
    using assms by (simp add: nth_spanLines)
qed

lemma wrapLines_cong:
  assumes "la \<le> lh"
    and "\<And>n. la \<le> n \<Longrightarrow> n \<le> lh \<Longrightarrow> d1 ! n = d ! n"
  shows "wrapLines c x d1 (Pos (int la) (int ca), Pos (int lh) (int cb))
           = wrapLines c x d (Pos (int la) (int ca), Pos (int lh) (int cb))"
proof -
  have "getBetween d1 (Pos (int la) (int ca)) (Pos (int lh) (int cb))
          = getBetween d (Pos (int la) (int ca)) (Pos (int lh) (int cb))"
    unfolding getBetween_nat using assms(2) by (intro map_cong) auto
  moreover have "d1 ! la = d ! la" and "d1 ! lh = d ! lh"
    using assms by simp_all
  ultimately show ?thesis
    by (simp add: wrapLines_def del: splitLines.simps)
qed

lemma getRange_cong:
  assumes "length d1 = length d" and "la < length d" and "lh < length d"
    and "ca \<le> length (d ! la)" and "cb \<le> length (d ! lh)" and "la \<le> lh"
    and "doc s1 = d1" and "doc s = d"
    and "\<And>n. la \<le> n \<Longrightarrow> n \<le> lh \<Longrightarrow> d1 ! n = d ! n"
  shows "getRange s1 (Pos (int la) (int ca)) (Pos (int lh) (int cb))
           = getRange s (Pos (int la) (int ca)) (Pos (int lh) (int cb))"
proof -
  have same: "d1 ! la = d ! la" "d1 ! lh = d ! lh"
    using assms(6,9) by simp_all
  have "getBetween d1 (Pos (int la) (int ca)) (Pos (int lh) (int cb))
          = getBetween d (Pos (int la) (int ca)) (Pos (int lh) (int cb))"
    unfolding getBetween_nat using assms(9) by (intro map_cong) auto
  moreover have "clipPos d1 (Pos (int la) (int ca)) = Pos (int la) (int ca)"
    "clipPos d1 (Pos (int lh) (int cb)) = Pos (int lh) (int cb)"
    "clipPos d (Pos (int la) (int ca)) = Pos (int la) (int ca)"
    "clipPos d (Pos (int lh) (int cb)) = Pos (int lh) (int cb)"
    using assms(1-5) same by (simp_all add: clipPos_valid validPos_def)
  ultimately show ?thesis
    using assms(7,8) by (simp add: getRange_def)
qed

text \<open>One step of the loop over the selections, and what it leaves alone.\<close>

lemma lfFree_splice:
  assumes "lfFree d" and "lfFree W"
  shows "lfFree (take la d @ W @ drop lb d)"
  using assms by (auto simp add: lfFree_def list_all_iff dest: in_set_takeD in_set_dropD)

lemma wrapSelection_step:
  assumes "forwardRange (doc s) r" and "lfFree (doc s)"
    and "c \<noteq> CHR 0x0A" and "x \<noteq> CHR 0x0A"
  shows "length (doc (wrapSelection [c] (Some [x]) r s)) = length (doc s)"
    and "lfFree (doc (wrapSelection [c] (Some [x]) r s))"
    and "defaultPrevented (wrapSelection [c] (Some [x]) r s) = defaultPrevented s"
    and "calls (wrapSelection [c] (Some [x]) r s)
           = calls s @ [ReplaceRange (c # getRange s (fst r) (snd r) @ [x]) (fst r) (Some (snd r))]"
    and "spanLines (doc (wrapSelection [c] (Some [x]) r s)) r = wrapLines c x (doc s) r"
    and "\<And>n. n < length (doc s) \<Longrightarrow> \<not> inSpan r n \<Longrightarrow>
           doc (wrapSelection [c] (Some [x]) r s) ! n = doc s ! n"
proof -
  from assms(1) obtain la ca lh cb where r: "r = (Pos (int la) (int ca), Pos (int lh) (int cb))"
    and b: "la < length (doc s)" "lh < length (doc s)" "ca \<le> length (doc s ! la)"
      "cb \<le> length (doc s ! lh)" "la \<le> lh" "la < lh \<or> ca < cb"
    by (rule forwardRangeE)
  let ?W = "wrapLines c x (doc s) r"
  let ?s1 = "wrapSelection [c] (Some [x]) r s"
  have d1: "doc ?s1 = take la (doc s) @ ?W @ drop (Suc lh) (doc s)"
    unfolding r using b by (rule wrapSelection_forward(1))
  have lenW: "length ?W = Suc lh - la" and lfW: "lfFree ?W"
    unfolding r using assms(2) b(1,2,5) assms(3,4) by (rule wrapLines_facts)+
  show "length (doc ?s1) = length (doc s)"
    unfolding d1 using b(2,5) lenW by (rule splice_frame(1))
  show "lfFree (doc ?s1)"
    unfolding d1 using assms(2) lfW by (rule lfFree_splice)
  show "defaultPrevented ?s1 = defaultPrevented s"
    unfolding r using b by (rule wrapSelection_forward(3))
  show "calls ?s1
          = calls s @ [ReplaceRange (c # getRange s (fst r) (snd r) @ [x]) (fst r) (Some (snd r))]"
    using wrapSelection_forward(2) [OF b, of c x] by (simp add: r)
  show "spanLines (doc ?s1) r = ?W"
    unfolding d1 using splice_frame(4) [OF b(2,5) lenW] by (simp add: r)
  show "doc ?s1 ! n = doc s ! n" if "n < length (doc s)" "\<not> inSpan r n" for n
  proof -
    from that(2) have "n < la \<or> lh < n"
      by (auto simp add: inSpan_def r)
    then show ?thesis
      unfolding d1 using splice_frame(2,3) [OF b(2,5) lenW] that(1) by blast
  qed
qed

lemma span_transfer:
  assumes "forwardRange d r" and "length d1 = length d"
    and "\<And>n. n < length d \<Longrightarrow> inSpan r n \<Longrightarrow> d1 ! n = d ! n"
  shows "forwardRange d1 r"
    and "wrapLines c x d1 r = wrapLines c x d r"
    and "spanLines d1 r = spanLines d r"
    and "doc s1 = d1 \<Longrightarrow> doc s = d \<Longrightarrow>
           getRange s1 (fst r) (snd r) = getRange s (fst r) (snd r)"
proof -
  from assms(1) obtain la ca lh cb where r: "r = (Pos (int la) (int ca), Pos (int lh) (int cb))"
    and b: "la < length d" "lh < length d" "ca \<le> length (d ! la)"
      "cb \<le> length (d ! lh)" "la \<le> lh" "la < lh \<or> ca < cb"
    by (rule forwardRangeE)
  have agree: "d1 ! n = d ! n" if "la \<le> n" "n \<le> lh" for n
    using assms(3) [of n] that b(2) by (simp add: inSpan_def r)
  then have ends: "d1 ! la = d ! la" "d1 ! lh = d ! lh"
    using b(5) by simp_all
  show "forwardRange d1 r"
    using assms(1,2) ends by (simp add: forwardRange_def validPos_def r)
  show "wrapLines c x d1 r = wrapLines c x d r"
    unfolding r using b(5) agree by (rule wrapLines_cong)
  show "spanLines d1 r = spanLines d r"
    unfolding r using assms(2) b(2) agree by (rule spanLines_cong)
  show "getRange s1 (fst r) (snd r) = getRange s (fst r) (snd r)" if "doc s1 = d1" "doc s = d"
    using getRange_cong [OF assms(2) b(1-5) that agree] by (simp add: r)
qed

lemma spans_apart:
  assumes "forwardRange d r" and "forwardRange d r'" and "spanDisjoint r r'" and "inSpan r n"
  shows "\<not> inSpan r' n"
  using assms
  by (auto simp add: forwardRange_def validPos_def spanDisjoint_def inSpan_def)

text \<open>The whole loop, for ranges that touch no common line.\<close>

lemma fold_wrapSelection:
  assumes "list_all (forwardRange (doc s)) rs" and "sorted_wrt spanDisjoint rs"
    and "lfFree (doc s)" and "c \<noteq> CHR 0x0A" and "x \<noteq> CHR 0x0A"
  shows "length (doc (fold (wrapSelection [c] (Some [x])) rs s)) = length (doc s)
       \<and> lfFree (doc (fold (wrapSelection [c] (Some [x])) rs s))
       \<and> defaultPrevented (fold (wrapSelection [c] (Some [x])) rs s) = defaultPrevented s
       \<and> calls (fold (wrapSelection [c] (Some [x])) rs s)
           = calls s @ map (\<lambda>r. ReplaceRange (c # getRange s (fst r) (snd r) @ [x])
                                    (fst r) (Some (snd r))) rs
       \<and> (\<forall>r\<in>set rs. spanLines (doc (fold (wrapSelection [c] (Some [x])) rs s)) r
                          = wrapLines c x (doc s) r)
       \<and> (\<forall>n<length (doc s). (\<forall>r\<in>set rs. \<not> inSpan r n)
              \<longrightarrow> doc (fold (wrapSelection [c] (Some [x])) rs s) ! n = doc s ! n)"
  using assms(1,2,3)
proof (induction rs arbitrary: s)
  case Nil
  then show ?case by simp
next
  case (Cons r rs)
  let ?s1 = "wrapSelection [c] (Some [x]) r s"
  let ?t = "fold (wrapSelection [c] (Some [x])) rs ?s1"
  from Cons.prems(1) have fr: "forwardRange (doc s) r"
    and frs: "\<And>r'. r' \<in> set rs \<Longrightarrow> forwardRange (doc s) r'"
    by (simp_all add: list_all_iff)
  from Cons.prems(2) have apart: "\<And>r'. r' \<in> set rs \<Longrightarrow> spanDisjoint r r'"
    and sorted: "sorted_wrt spanDisjoint rs"
    by simp_all
  note step = wrapSelection_step [OF fr Cons.prems(3) assms(4,5)]
  have outside: "doc ?s1 ! n = doc s ! n"
    if "r' \<in> set rs" "n < length (doc s)" "inSpan r' n" for r' n
  proof -
    have "\<not> inSpan r n"
      using spans_apart [OF fr frs [OF that(1)] apart [OF that(1)]] that(3) by blast
    with that(2) show ?thesis
      by (rule step(6))
  qed
  have transfer: "forwardRange (doc ?s1) r'
        \<and> wrapLines c x (doc ?s1) r' = wrapLines c x (doc s) r'
        \<and> getRange ?s1 (fst r') (snd r') = getRange s (fst r') (snd r')"
    if mem: "r' \<in> set rs" for r'
  proof -
    have ag: "\<And>n. n < length (doc s) \<Longrightarrow> inSpan r' n \<Longrightarrow> doc ?s1 ! n = doc s ! n"
      using outside [OF mem] .
    from span_transfer(1) [OF frs [OF mem] step(1) ag]
      span_transfer(2) [OF frs [OF mem] step(1) ag]
      span_transfer(4) [OF frs [OF mem] step(1) ag, of ?s1 s]
    show ?thesis by simp
  qed
  have frs1: "list_all (forwardRange (doc ?s1)) rs"
    unfolding list_all_iff using transfer by blast
  note IH = Cons.IH [OF frs1 sorted step(2)]
  have len: "length (doc ?t) = length (doc s)"
    using IH step(1) by simp
  have lf: "lfFree (doc ?t)"
    using IH by simp
  have pd: "defaultPrevented ?t = defaultPrevented s"
    using IH step(3) by simp
  have "map (\<lambda>r. ReplaceRange (c # getRange ?s1 (fst r) (snd r) @ [x]) (fst r) (Some (snd r))) rs
          = map (\<lambda>r. ReplaceRange (c # getRange s (fst r) (snd r) @ [x]) (fst r) (Some (snd r))) rs"
    using transfer by (intro map_cong) simp_all
  then have cl: "calls ?t
           = calls s @ map (\<lambda>r. ReplaceRange (c # getRange s (fst r) (snd r) @ [x])
                                    (fst r) (Some (snd r))) (r # rs)"
    using IH step(4) by simp
  have others: "spanLines (doc ?t) r' = wrapLines c x (doc s) r'" if "r' \<in> set rs" for r'
    using IH that transfer [OF that] by simp
  have frame1: "doc ?t ! n = doc ?s1 ! n" if "n < length (doc s)" "\<forall>r'\<in>set rs. \<not> inSpan r' n" for n
    using IH that step(1) by simp
  have this_one: "spanLines (doc ?t) r = wrapLines c x (doc s) r"
  proof -
    have same: "doc ?t ! n = doc ?s1 ! n" if "n < length (doc ?s1)" "inSpan r n" for n
    proof -
      have "\<forall>r'\<in>set rs. \<not> inSpan r' n"
        using spans_apart [OF fr frs apart that(2)] by blast
      with that(1) show ?thesis
        using frame1 step(1) by simp
    qed
    from fr obtain la ca lh cb where r: "r = (Pos (int la) (int ca), Pos (int lh) (int cb))"
      and b: "la < length (doc s)" "lh < length (doc s)" "ca \<le> length (doc s ! la)"
        "cb \<le> length (doc s ! lh)" "la \<le> lh" "la < lh \<or> ca < cb"
      by (rule forwardRangeE)
    have "spanLines (doc ?t) (Pos (int la) (int ca), Pos (int lh) (int cb))
            = spanLines (doc ?s1) (Pos (int la) (int ca), Pos (int lh) (int cb))"
    proof (rule spanLines_cong)
      show "length (doc ?t) = length (doc ?s1)"
        using len step(1) by simp
      show "lh < length (doc ?s1)"
        using b(2) step(1) by simp
      show "doc ?t ! n = doc ?s1 ! n" if "la \<le> n" "n \<le> lh" for n
        using same [of n] that b(2) step(1) by (simp add: inSpan_def r)
    qed
    then have "spanLines (doc ?t) r = spanLines (doc ?s1) r"
      by (simp add: r)
    with step(5) show ?thesis by simp
  qed
  have frame: "doc ?t ! n = doc s ! n"
    if "n < length (doc s)" "\<forall>r'\<in>set (r # rs). \<not> inSpan r' n" for n
    using frame1 [of n] step(6) [of n] that by simp
  from len lf pd cl others this_one frame show ?case
    by simp
qed

text \<open>Where the replacements leave the selection ranges.\<close>

lemma length_wrapText:
  assumes "lfFree d" and "lh < length d" and "la \<le> lh"
    and "c \<noteq> CHR 0x0A" and "x \<noteq> CHR 0x0A"
  shows "length (splitLines (c # joinLines (getBetween d (Pos (int la) (int ca))
                                                       (Pos (int lh) (int cb))) @ [x]))
           = Suc lh - la"
proof -
  let ?G = "getBetween d (Pos (int la) (int ca)) (Pos (int lh) (int cb))"
  have lenG: "length ?G = Suc lh - la"
    by (simp add: getBetween_nat del: upt_Suc)
  then have G_ne: "?G \<noteq> []"
    using assms(3) by auto
  have lfG: "lfFree ?G"
    using assms(1,2) by (rule lfFree_getBetween)
  have "length (splitLines (c # joinLines ?G @ [x])) = length ?G"
    using count_LF_joinLines [OF lfG G_ne] assms(4,5) by (simp add: length_splitLines)
  with lenG show ?thesis
    by simp
qed

lemma wrapSelection_sels:
  assumes "la < length (doc s)" and "lh < length (doc s)" and "ca \<le> length (doc s ! la)"
    and "cb \<le> length (doc s ! lh)" and "la \<le> lh" and "la < lh \<or> ca < cb"
    and "lfFree (doc s)" and "c \<noteq> CHR 0x0A" and "x \<noteq> CHR 0x0A"
  shows "\<exists>adj. sels (wrapSelection [c] (Some [x]) (Pos (int la) (int ca), Pos (int lh) (int cb)) s)
                 = map (\<lambda>q. (adj (fst q), adj (snd q))) (sels s)
             \<and> adj (Pos (int la) (int ca)) = adj (Pos (int lh) (int cb))
             \<and> (\<forall>p. line p < int la \<or> int lh < line p \<longrightarrow> adj p = p)"
proof -
  let ?a = "Pos (int la) (int ca)" and ?h = "Pos (int lh) (int cb)"
  let ?text = "splitLines (c # joinLines (getBetween (doc s) ?a ?h) @ [x])"
  let ?adj = "adjustForChange ?a ?text ?h"
  have va: "clipPos (doc s) ?a = ?a" and vh: "clipPos (doc s) ?h = ?h"
    using assms by (simp_all add: clipPos_valid validPos_def)
  have ord: "\<not> cmp ?h ?a < 0" "cmp ?a ?h < 0"
    using assms(5,6) by (auto simp add: cmp_def)
  have len: "length ?text = Suc lh - la"
    using assms(7,2,5,8,9) by (rule length_wrapText)
  have "sels (wrapSelection [c] (Some [x]) (?a, ?h) s)
          = map (\<lambda>q. (?adj (fst q), ?adj (snd q))) (sels s)"
    using va vh ord
    by (simp add: wrapSelection_def replaceRange_def Let_def jsString_def getRange_def
        del: splitLines.simps)
  moreover have "?adj ?a = ?adj ?h"
    using ord by (simp add: adjustForChange_def cmp_def del: splitLines.simps)
  moreover have "?adj p = p" if "line p < int la \<or> int lh < line p" for p
  proof -
    from that show ?thesis
    proof
      assume "line p < int la"
      then show ?thesis
        by (simp add: adjustForChange_def cmp_def del: splitLines.simps)
    next
      assume after: "int lh < line p"
      with assms(5) have "\<not> cmp p ?a < 0" and "\<not> cmp p ?h \<le> 0" and "line p \<noteq> int lh"
        by (auto simp add: cmp_def)
      moreover have "int (length ?text) - (int lh - int la) - 1 = 0"
        using len assms(5) by (simp add: of_nat_diff)
      ultimately show ?thesis
        by (cases p) (simp add: adjustForChange_def del: splitLines.simps)
    qed
  qed
  ultimately show ?thesis
    by blast
qed

lemma wrapSelection_keeps_forward:
  assumes "forwardRange (doc s) r" and "forwardRange (doc s) r'" and "spanDisjoint r r'"
    and "lfFree (doc s)" and "c \<noteq> CHR 0x0A" and "x \<noteq> CHR 0x0A"
  shows "forwardRange (doc (wrapSelection [c] (Some [x]) r s)) r'"
proof -
  note step = wrapSelection_step [OF assms(1,4,5,6)]
  have "doc (wrapSelection [c] (Some [x]) r s) ! n = doc s ! n"
    if "n < length (doc s)" "inSpan r' n" for n
  proof -
    have "\<not> inSpan r n"
      using spans_apart [OF assms(1,2,3)] that(2) by blast
    with that(1) show ?thesis by (rule step(6))
  qed
  with assms(2) step(1) show ?thesis
    by (rule span_transfer(1))
qed

lemma fold_collapse:
  assumes "list_all (forwardRange (doc s)) rs" and "sorted_wrt spanDisjoint rs"
    and "lfFree (doc s)" and "c \<noteq> CHR 0x0A" and "x \<noteq> CHR 0x0A"
    and "sels s = pre @ rs" and "list_all (\<lambda>q. fst q = snd q) pre"
  shows "list_all (\<lambda>q. fst q = snd q) (sels (fold (wrapSelection [c] (Some [x])) rs s))"
  using assms(1,2,3,6,7)
proof (induction rs arbitrary: s pre)
  case Nil
  then show ?case by simp
next
  case (Cons r rs)
  let ?s1 = "wrapSelection [c] (Some [x]) r s"
  from Cons.prems(1) have fr: "forwardRange (doc s) r"
    and frs: "\<And>r'. r' \<in> set rs \<Longrightarrow> forwardRange (doc s) r'"
    by (simp_all add: list_all_iff)
  from Cons.prems(2) have apart: "\<And>r'. r' \<in> set rs \<Longrightarrow> spanDisjoint r r'"
    and sorted: "sorted_wrt spanDisjoint rs"
    by simp_all
  from fr obtain la ca lh cb where r: "r = (Pos (int la) (int ca), Pos (int lh) (int cb))"
    and b: "la < length (doc s)" "lh < length (doc s)" "ca \<le> length (doc s ! la)"
      "cb \<le> length (doc s ! lh)" "la \<le> lh" "la < lh \<or> ca < cb"
    by (rule forwardRangeE)
  from wrapSelection_sels [OF b Cons.prems(3) assms(4,5)] obtain adj where
    sels1: "sels ?s1 = map (\<lambda>q. (adj (fst q), adj (snd q))) (sels s)"
    and own: "adj (fst r) = adj (snd r)"
    and far: "\<And>p. line p < int la \<or> int lh < line p \<Longrightarrow> adj p = p"
    unfolding r by auto
  have keep: "(adj (fst r'), adj (snd r')) = r'" if "r' \<in> set rs" for r'
  proof -
    from frs [OF that] have "line (fst r') \<le> line (snd r')"
      by (auto simp add: forwardRange_def cmp_def split: if_splits)
    with apart [OF that]
    have "(line (fst r') < int la \<and> line (snd r') < int la)
          \<or> (int lh < line (fst r') \<and> int lh < line (snd r'))"
      by (auto simp add: spanDisjoint_def r)
    then have "adj (fst r') = fst r'" and "adj (snd r') = snd r'"
      using far by blast+
    then show ?thesis by simp
  qed
  then have "map (\<lambda>q. (adj (fst q), adj (snd q))) rs = rs"
    by (simp add: map_idI)
  then have sels1': "sels ?s1 = (map (\<lambda>q. (adj (fst q), adj (snd q))) pre @ [(adj (fst r), adj (snd r))]) @ rs"
    using sels1 Cons.prems(4) by simp
  have pre1: "list_all (\<lambda>q. fst q = snd q)
                (map (\<lambda>q. (adj (fst q), adj (snd q))) pre @ [(adj (fst r), adj (snd r))])"
    using Cons.prems(5) own by (simp add: list_all_iff)
  have frs1: "list_all (forwardRange (doc ?s1)) rs"
    unfolding list_all_iff
    using wrapSelection_keeps_forward [OF fr frs apart Cons.prems(3) assms(4,5)] by blast
  have lf1: "lfFree (doc ?s1)"
    using fr Cons.prems(3) assms(4,5) by (rule wrapSelection_step(2))
  from Cons.IH [OF frs1 sorted lf1 sels1' pre1] show ?case
    by simp
qed

lemma span_text:
  assumes "forwardRange (doc s) r" and "lfFree (doc s)"
    and "c \<noteq> CHR 0x0A" and "x \<noteq> CHR 0x0A"
  shows "joinLines (spanLines (doc s) r)
           = take (nat (ch (fst r))) (doc s ! nat (line (fst r)))
             @ getRange s (fst r) (snd r)
             @ drop (nat (ch (snd r))) (doc s ! nat (line (snd r)))"
    and "joinLines (wrapLines c x (doc s) r)
           = take (nat (ch (fst r))) (doc s ! nat (line (fst r)))
             @ c # getRange s (fst r) (snd r)
             @ x # drop (nat (ch (snd r))) (doc s ! nat (line (snd r)))"
proof -
  from assms(1) obtain la ca lh cb where r: "r = (Pos (int la) (int ca), Pos (int lh) (int cb))"
    and b: "la < length (doc s)" "lh < length (doc s)" "ca \<le> length (doc s ! la)"
      "cb \<le> length (doc s ! lh)" "la \<le> lh" "la < lh \<or> ca < cb"
    by (rule forwardRangeE)
  let ?a = "Pos (int la) (int ca)" and ?h = "Pos (int lh) (int cb)"
  have gr: "getRange s ?a ?h = joinLines (getBetween (doc s) ?a ?h)"
    using b by (simp add: getRange_def clipPos_valid validPos_def)
  have "length (getBetween (doc s) ?a ?h) = Suc lh - la"
    by (simp add: getBetween_nat del: upt_Suc)
  then have G_ne: "getBetween (doc s) ?a ?h \<noteq> []"
    using b(5) by auto
  show "joinLines (spanLines (doc s) r)
           = take (nat (ch (fst r))) (doc s ! nat (line (fst r)))
             @ getRange s (fst r) (snd r)
             @ drop (nat (ch (snd r))) (doc s ! nat (line (snd r)))"
    using spanLines_splice [OF b] joinLines_spliceLines [OF G_ne] gr
    by (simp add: r)
  show "joinLines (wrapLines c x (doc s) r)
           = take (nat (ch (fst r))) (doc s ! nat (line (fst r)))
             @ c # getRange s (fst r) (snd r)
             @ x # drop (nat (ch (snd r))) (doc s ! nat (line (snd r)))"
    using wrapLines_facts(3) [OF assms(2) b(1,2,5) assms(3,4), of ca cb] gr
    by (simp add: r)
qed

text \<open>
  C2, as amended. Let \<open>c\<close> be an opener with closer \<open>x\<close> that is not typed through, and
  let every selection range be non-empty and run forward from its anchor to its head,
  with no two ranges touching a common line. Then typing \<open>c\<close> suppresses the default
  and issues exactly one \<^verbatim>\<open>replaceRange\<close> per range, in the order of the selections, that
  puts \<open>c T x\<close> in the place of the text \<open>T\<close> of the range: the lines of the range,
  joined, were the text before the anchor, \<open>T\<close>, and the text after the head, and become
  the text before the anchor, \<open>c T x\<close>, and the text after the head. The number of lines
  stays, and every line outside the ranges keeps its text. The listener issues no
  command that selects anything, and in the modelled host each replacement leaves its
  range empty: afterwards nothing is selected.
\<close>

theorem keypress_wraps_selections:
  assumes "wellFormed s" and "isOpenBracket [c]"
    and "\<not> (isCloseBracket [c] \<and> nextCharOf s = [c])"
    and "lfFree (doc s)"
    and "list_all (forwardRange (doc s)) (sels s)"
    and "sorted_wrt spanDisjoint (sels s)"
  shows "\<exists>x t. getCloseBracket [c] = Some [x] \<and> handleKeypress s c = Inr t
           \<and> defaultPrevented t
           \<and> calls t = calls s @ map (\<lambda>r. ReplaceRange (c # getRange s (fst r) (snd r) @ [x])
                                             (fst r) (Some (snd r))) (sels s)
           \<and> length (doc t) = length (doc s)
           \<and> (\<forall>r\<in>set (sels s).
                 joinLines (spanLines (doc s) r)
                   = take (nat (ch (fst r))) (doc s ! nat (line (fst r)))
                     @ getRange s (fst r) (snd r)
                     @ drop (nat (ch (snd r))) (doc s ! nat (line (snd r)))
               \<and> joinLines (spanLines (doc t) r)
                   = take (nat (ch (fst r))) (doc s ! nat (line (fst r)))
                     @ c # getRange s (fst r) (snd r)
                     @ x # drop (nat (ch (snd r))) (doc s ! nat (line (snd r))))
           \<and> (\<forall>n<length (doc s). (\<forall>r\<in>set (sels s). \<not> inSpan r n)
                 \<longrightarrow> doc t ! n = doc s ! n)
           \<and> \<not> somethingSelected t"
proof -
  from getCloseBracket_char [OF assms(2)] obtain x where
    x: "getCloseBracket [c] = Some [x]" "x \<noteq> CHR 0x0A" "c \<noteq> CHR 0x0A"
    by blast
  let ?s1 = "preventDefault (s\<lparr>lookups := lookups s @ [[c]]\<rparr>)"
  let ?t = "fold (wrapSelection [c] (Some [x])) (sels s) ?s1"
  have same: "doc ?s1 = doc s" "sels ?s1 = sels s" "calls ?s1 = calls s" "defaultPrevented ?s1"
    by (simp_all add: preventDefault_def)
  have gr: "getRange ?s1 a h = getRange s a h" for a h
    by (simp add: getRange_def preventDefault_def)
  from assms(1) have "sels s \<noteq> []"
    by (auto simp add: wellFormed_def)
  then obtain r0 where "r0 \<in> set (sels s)"
    by (cases "sels s") auto
  with assms(5) have "forwardRange (doc s) r0"
    by (simp add: list_all_iff)
  then have "fst r0 \<noteq> snd r0"
    by (auto simp add: forwardRange_def cmp_def)
  with \<open>r0 \<in> set (sels s)\<close> have selected: "somethingSelected ?s1"
    by (auto simp add: somethingSelected_def list_ex_iff preventDefault_def)
  have auto_eq: "autocomplete [c] (Some [x]) (getCursor s) (s\<lparr>lookups := lookups s @ [[c]]\<rparr>) = ?t"
    using selected by (simp add: autocomplete_def Let_def listSelections_def preventDefault_def)
  have run: "handleKeypress s c = Inr ?t"
  proof (cases "isCloseBracket [c]")
    case True
    with assms(3) have "[c] \<noteq> charAt (cursorLine s) (ch (getCursor s))"
      by (auto simp add: nextCharOf_def)
    with True assms(2) x(1) auto_eq show ?thesis
      by (simp add: handleKeypress_def getLine_cursor [OF assms(1)] Let_def
          callGetCloseBracket_def handlePunctuation_def)
  next
    case False
    with assms(2) x(1) auto_eq show ?thesis
      by (simp add: handleKeypress_def getLine_cursor [OF assms(1)] Let_def
          callGetCloseBracket_def)
  qed
  have fw: "list_all (forwardRange (doc ?s1)) (sels s)" and lf: "lfFree (doc ?s1)"
    using assms(4,5) by (simp_all add: same)
  note F = fold_wrapSelection [OF fw assms(6) lf x(3,2)]
  have f1: "length (doc ?t) = length (doc s)"
    and f3: "defaultPrevented ?t"
    and f4: "calls ?t = calls s @ map (\<lambda>r. ReplaceRange (c # getRange s (fst r) (snd r) @ [x])
                                             (fst r) (Some (snd r))) (sels s)"
    and f5: "\<forall>r\<in>set (sels s). spanLines (doc ?t) r = wrapLines c x (doc s) r"
    and f6: "\<forall>n<length (doc s). (\<forall>r\<in>set (sels s). \<not> inSpan r n) \<longrightarrow> doc ?t ! n = doc s ! n"
    using F by (simp_all add: same gr)
  have texts: "joinLines (spanLines (doc s) r)
                   = take (nat (ch (fst r))) (doc s ! nat (line (fst r)))
                     @ getRange s (fst r) (snd r)
                     @ drop (nat (ch (snd r))) (doc s ! nat (line (snd r)))
               \<and> joinLines (spanLines (doc ?t) r)
                   = take (nat (ch (fst r))) (doc s ! nat (line (fst r)))
                     @ c # getRange s (fst r) (snd r)
                     @ x # drop (nat (ch (snd r))) (doc s ! nat (line (snd r)))"
    if "r \<in> set (sels s)" for r
  proof -
    from that assms(5) have "forwardRange (doc s) r"
      by (simp add: list_all_iff)
    from span_text [OF this assms(4) x(3,2)] f5 that show ?thesis
      by simp
  qed
  have "list_all (\<lambda>q. fst q = snd q) (sels ?t)"
    using fold_collapse [OF fw assms(6) lf x(3,2), of "[]"] by (simp add: same)
  then have none: "\<not> somethingSelected ?t"
    by (auto simp add: somethingSelected_def list_ex_iff list_all_iff)
  from x(1) run f1 f3 f4 texts f6 none show ?thesis
    by blast
qed

theorem keypress_wraps_selections_witness:
  "wellFormed wrapExample \<and> isOpenBracket ''(''
   \<and> \<not> (isCloseBracket ''('' \<and> nextCharOf wrapExample = ''('')
   \<and> lfFree (doc wrapExample)
   \<and> list_all (forwardRange (doc wrapExample)) (sels wrapExample)
   \<and> sorted_wrt spanDisjoint (sels wrapExample)
   \<and> (\<exists>t. handleKeypress wrapExample CHR ''('' = Inr t
          \<and> doc t = [''a(b'', ''c)d'', ''(ef)'']
          \<and> calls t = [ReplaceRange [CHR ''('', CHR ''b'', CHR 0x0A, CHR ''c'', CHR '')'']
                             (Pos 0 1) (Some (Pos 1 1)),
                           ReplaceRange ''(ef)'' (Pos 2 0) (Some (Pos 2 2))]
          \<and> defaultPrevented t \<and> \<not> somethingSelected t)"
proof -
  have h1: "wellFormed wrapExample"
    by (simp add: wrapExample_def eval_defs)
  have h2: "isOpenBracket ''(''"
    by (simp add: eval_defs)
  have h3: "\<not> (isCloseBracket ''('' \<and> nextCharOf wrapExample = ''('')"
    by (simp add: eval_defs)
  have h4: "lfFree (doc wrapExample)"
    by (simp add: wrapExample_def editor_def lfFree_def)
  have h5: "list_all (forwardRange (doc wrapExample)) (sels wrapExample)"
    by (simp add: wrapExample_def editor_def forwardRange_def validPos_def cmp_def)
  have h6: "sorted_wrt spanDisjoint (sels wrapExample)"
    by (simp add: wrapExample_def editor_def spanDisjoint_def)
  from keypress_wraps_selections [OF h1 h2 h3 h4 h5 h6] obtain t where
    t: "handleKeypress wrapExample CHR ''('' = Inr t" "defaultPrevented t"
      "\<not> somethingSelected t"
    by blast
  have run: "handleKeypress wrapExample CHR ''(''
      = Inr ((editor [''a(b'', ''c)d'', ''(ef)''] [(Pos 1 2, Pos 1 2), (Pos 2 4, Pos 2 4)])
               \<lparr>defaultPrevented := True,
                calls := [ReplaceRange [CHR ''('', CHR ''b'', CHR 0x0A, CHR ''c'', CHR '')'']
                            (Pos 0 1) (Some (Pos 1 1)),
                          ReplaceRange ''(ef)'' (Pos 2 0) (Some (Pos 2 2))],
                lookups := [''('']\<rparr>)"
    by code_simp
  with t have "doc t = [''a(b'', ''c)d'', ''(ef)'']"
    and "calls t = [ReplaceRange [CHR ''('', CHR ''b'', CHR 0x0A, CHR ''c'', CHR '')'']
                             (Pos 0 1) (Some (Pos 1 1)),
                           ReplaceRange ''(ef)'' (Pos 2 0) (Some (Pos 2 2))]"
    by (auto simp add: editor_def)
  with t h1 h2 h3 h4 h5 h6 show ?thesis
    by blast
qed

text \<open>
  C2 as stated fails in three ways, here in turn. A double quote typed while
  \<open>ab\<close> is selected in front of a double quote is typed through: the selection is dropped
  and nothing is wrapped. With \<open>ab\<close> and \<open>cd\<close> selected on one line, the second
  replacement uses the columns read before the first one and wraps the wrong text. With
  the single selection \<open>abc\<close>, the text is wrapped and the selection ends as a cursor
  behind the closer, not as the text \<open>abc\<close>.
\<close>

theorem wrap_selection_counterexample:
  "handleKeypress (editor [''ab'' @ [CHR 0x22]] [(Pos 0 0, Pos 0 2)]) (CHR 0x22)
     = Inr ((editor [''ab'' @ [CHR 0x22]] [(Pos 0 3, Pos 0 3)])
             \<lparr>defaultPrevented := True, calls := [SetCursor (Pos 0 3)],
              lookups := [[CHR 0x22]]\<rparr>)
   \<and> handleKeypress (editor [''ab cd''] [(Pos 0 0, Pos 0 2), (Pos 0 3, Pos 0 5)]) CHR ''(''
     = Inr ((editor [''(ab() )cd''] [(Pos 0 7, Pos 0 7), (Pos 0 7, Pos 0 9)])
             \<lparr>defaultPrevented := True,
              calls := [ReplaceRange ''(ab)'' (Pos 0 0) (Some (Pos 0 2)),
                        ReplaceRange ''() )'' (Pos 0 3) (Some (Pos 0 5))],
              lookups := [''('']\<rparr>)
   \<and> handleKeypress (editor [''abc''] [(Pos 0 0, Pos 0 3)]) CHR ''(''
     = Inr ((editor [''(abc)''] [(Pos 0 5, Pos 0 5)])
             \<lparr>defaultPrevented := True,
              calls := [ReplaceRange ''(abc)'' (Pos 0 0) (Some (Pos 0 3))],
              lookups := [''('']\<rparr>)"
  by code_simp

text \<open>
  A selection made from right to left has its anchor behind its head. In the modelled
  host \<^verbatim>\<open>getRange(anchor, head)\<close> then reads the empty string, so the selected text is
  replaced by the bare pair.
\<close>

lemma backward_selection_example:
  "handleKeypress (editor [''abc''] [(Pos 0 3, Pos 0 0)]) CHR ''(''
     = Inr ((editor [''()''] [(Pos 0 2, Pos 0 2)])
             \<lparr>defaultPrevented := True,
              calls := [ReplaceRange ''()'' (Pos 0 3) (Some (Pos 0 0))],
              lookups := [''('']\<rparr>)"
  by code_simp

end
